theory Spec2Isabelle
  imports Complex_Main "HOL-Library.AList" "HOL-Library.Sublist"
begin

section \<open>The page: unified mutation observer, event loop, scroll state\<close>

text \<open>
  Embedding of \<^verbatim>\<open>src/preload.ts\<close>. Module-level variables become fields of a state
  record, and every function of the source becomes a function from state to state.

  The browser objects the code talks to are modelled by what the code can observe of them:
  \<^item> a \<^verbatim>\<open>MutationObserver\<close> instance is a cell of a heap of instances holding whether it
    currently observes \<^verbatim>\<open>document.body\<close>; \<^verbatim>\<open>unifiedObserver\<close> is a reference into that heap;
  \<^item> \<^verbatim>\<open>requestAnimationFrame\<close> hands out the handles 1, 2, 3, ... and queues the callback
    until the next frame; \<^verbatim>\<open>setTimeout\<close> does the same for timers, each with its due time;
  \<^item> a \<^verbatim>\<open>classList\<close> is a set of class names;
  \<^item> a \<^verbatim>\<open>MutationRecord\<close> and a handler's callback closure are opaque, so they are
    identified by numbers, and calling a handler is recorded in the field \<open>calls\<close>.
  Time is in milliseconds, as \<^verbatim>\<open>performance.now()\<close> reports it.
\<close>

type_synonym MutationRecord = nat

record ObserverHandler =
  handler_id :: string
  callback :: nat
  active :: bool

datatype frame_callback =
    ObserverFrame "MutationRecord list"
  | ScrollFrame

datatype call =
    HandlerCall string nat "MutationRecord list"
  | PauseAll
  | ResumeAll

record page =
  observerHandlers :: "(string \<times> ObserverHandler) list"
  unifiedObserver :: "nat option"
  observerRafId :: "nat option"
  observers :: "bool list"
  raf_queue :: "(nat \<times> frame_callback) list"
  raf_counter :: nat
  timers :: "(nat \<times> real) list"
  timer_counter :: nat
  scrollTimeout :: "nat option"
  rafId :: "nat option"
  isScrolling :: bool
  lastScrollTime :: real
  bodyClassList :: "string set"
  htmlClassList :: "string set"
  calls :: "call list"

text \<open>The state when the preload script has been loaded and nothing has been registered.\<close>

definition initial_page :: page where
  "initial_page =
     \<lparr>observerHandlers = [], unifiedObserver = None, observerRafId = None, observers = [],
      raf_queue = [], raf_counter = 0, timers = [], timer_counter = 0,
      scrollTimeout = None, rafId = None, isScrolling = False, lastScrollTime = 0,
      bodyClassList = {}, htmlClassList = {}, calls = []\<rparr>"

subsection \<open>Browser primitives\<close>

definition requestAnimationFrame :: "frame_callback \<Rightarrow> page \<Rightarrow> nat \<times> page" where
  "requestAnimationFrame cb p =
     (let h = Suc (raf_counter p)
      in (h, p\<lparr>raf_counter := h, raf_queue := raf_queue p @ [(h, cb)]\<rparr>))"

definition cancelAnimationFrame :: "nat \<Rightarrow> page \<Rightarrow> page" where
  "cancelAnimationFrame h p = p\<lparr>raf_queue := filter (\<lambda>e. fst e \<noteq> h) (raf_queue p)\<rparr>"

definition setTimeout :: "real \<Rightarrow> real \<Rightarrow> page \<Rightarrow> nat \<times> page" where
  "setTimeout now delay p =
     (let h = Suc (timer_counter p)
      in (h, p\<lparr>timer_counter := h, timers := timers p @ [(h, now + delay)]\<rparr>))"

definition clearTimeout :: "nat \<Rightarrow> page \<Rightarrow> page" where
  "clearTimeout h p = p\<lparr>timers := filter (\<lambda>e. fst e \<noteq> h) (timers p)\<rparr>"

definition new_MutationObserver :: "page \<Rightarrow> nat \<times> page" where
  "new_MutationObserver p = (length (observers p), p\<lparr>observers := observers p @ [False]\<rparr>)"

definition observe :: "nat \<Rightarrow> page \<Rightarrow> page" where
  "observe n p = p\<lparr>observers := (observers p)[n := True]\<rparr>"

definition disconnect :: "nat \<Rightarrow> page \<Rightarrow> page" where
  "disconnect n p = p\<lparr>observers := (observers p)[n := False]\<rparr>"

text \<open>Whether the instance \<open>n\<close> exists and is observing.\<close>

definition observing :: "page \<Rightarrow> nat \<Rightarrow> bool" where
  "observing p n \<longleftrightarrow> n < length (observers p) \<and> observers p ! n"

subsection \<open>Unified mutation observer\<close>

definition initUnifiedObserver :: "page \<Rightarrow> page" where
  "initUnifiedObserver p =
     (case unifiedObserver p of
        Some n \<Rightarrow> p
      | None \<Rightarrow>
          (let (n, p1) = new_MutationObserver p
           in observe n (p1\<lparr>unifiedObserver := Some n\<rparr>)))"

definition registerObserverHandler :: "string \<Rightarrow> nat \<Rightarrow> page \<Rightarrow> page" where
  "registerObserverHandler i cb p =
     (let p1 = initUnifiedObserver p
      in p1\<lparr>observerHandlers :=
               AList.update i \<lparr>handler_id = i, callback = cb, active = True\<rparr> (observerHandlers p1)\<rparr>)"

definition unregisterObserverHandler :: "string \<Rightarrow> page \<Rightarrow> page" where
  "unregisterObserverHandler i p =
     (let p1 = p\<lparr>observerHandlers := AList.delete i (observerHandlers p)\<rparr>
      in if length (observerHandlers p1) = 0
         then (case unifiedObserver p1 of
                 Some n \<Rightarrow> (disconnect n p1)\<lparr>unifiedObserver := None\<rparr>
               | None \<Rightarrow> p1)
         else p1)"

definition setObserverHandlerActive :: "string \<Rightarrow> bool \<Rightarrow> page \<Rightarrow> page" where
  "setObserverHandlerActive i a p =
     (case map_of (observerHandlers p) i of
        Some h \<Rightarrow> p\<lparr>observerHandlers := AList.update i (h\<lparr>active := a\<rparr>) (observerHandlers p)\<rparr>
      | None \<Rightarrow> p)"

definition pauseAllObservers :: "page \<Rightarrow> page" where
  "pauseAllObservers p =
     (let p1 = p\<lparr>calls := calls p @ [PauseAll]\<rparr>
      in case unifiedObserver p1 of Some n \<Rightarrow> disconnect n p1 | None \<Rightarrow> p1)"

definition resumeAllObservers :: "page \<Rightarrow> page" where
  "resumeAllObservers p =
     (let p1 = p\<lparr>calls := calls p @ [ResumeAll]\<rparr>
      in case unifiedObserver p1 of Some n \<Rightarrow> observe n p1 | None \<Rightarrow> p1)"

text \<open>
  The callback given to \<^verbatim>\<open>new MutationObserver\<close>: it cancels the pending frame and
  requests a new one that will dispatch this batch. A handle is a number, and
  \<^verbatim>\<open>if (observerRafId)\<close> tests that it is neither null nor 0.
\<close>

definition observer_callback :: "MutationRecord list \<Rightarrow> page \<Rightarrow> page" where
  "observer_callback mutations p =
     (let p1 = (case observerRafId p of
                  Some h \<Rightarrow> if h \<noteq> 0 then cancelAnimationFrame h p else p
                | None \<Rightarrow> p);
          (h, p2) = requestAnimationFrame (ObserverFrame mutations) p1
      in p2\<lparr>observerRafId := Some h\<rparr>)"

text \<open>
  The frame callback of the observer: \<^verbatim>\<open>observerHandlers.forEach\<close> visits the handlers in
  insertion order and calls the active ones; a handler that throws is logged and the loop
  goes on.
\<close>

definition dispatch_handlers :: "MutationRecord list \<Rightarrow> page \<Rightarrow> page" where
  "dispatch_handlers mutations p =
     p\<lparr>calls := calls p @
          map (\<lambda>h. HandlerCall (handler_id h) (callback h) mutations)
            (filter active (map snd (observerHandlers p))),
       observerRafId := None\<rparr>"

text \<open>
  The browser delivers a batch of mutation records to the unified observer only while that
  observer is connected.
\<close>

definition deliver_mutations :: "MutationRecord list \<Rightarrow> page \<Rightarrow> page" where
  "deliver_mutations mutations p =
     (case unifiedObserver p of
        Some n \<Rightarrow> if observing p n then observer_callback mutations p else p
      | None \<Rightarrow> p)"

subsection \<open>Scroll state detection\<close>

definition SCROLL_DEBOUNCE :: real where
  "SCROLL_DEBOUNCE = 50"

definition handleScroll :: "real \<Rightarrow> page \<Rightarrow> page" where
  "handleScroll now p =
     (let p1 = p\<lparr>lastScrollTime := now\<rparr>;
          p2 = (if \<not> isScrolling p1
                then pauseAllObservers
                       (p1\<lparr>isScrolling := True,
                           bodyClassList := insert ''scrolling-active'' (bodyClassList p1),
                           htmlClassList := insert ''performance-mode'' (htmlClassList p1)\<rparr>)
                else p1);
          p3 = (case scrollTimeout p2 of
                  Some h \<Rightarrow> if h \<noteq> 0 then clearTimeout h p2 else p2
                | None \<Rightarrow> p2);
          (h, p4) = setTimeout now SCROLL_DEBOUNCE p3
      in p4\<lparr>scrollTimeout := Some h\<rparr>)"

text \<open>The function given to \<^verbatim>\<open>setTimeout\<close> by \<^verbatim>\<open>handleScroll\<close>.\<close>

definition scroll_timeout_callback :: "page \<Rightarrow> page" where
  "scroll_timeout_callback p =
     (let p1 = (case rafId p of
                  Some h \<Rightarrow> if h \<noteq> 0 then cancelAnimationFrame h p else p
                | None \<Rightarrow> p);
          (h, p2) = requestAnimationFrame ScrollFrame p1
      in p2\<lparr>rafId := Some h\<rparr>)"

text \<open>The function it gives to \<^verbatim>\<open>requestAnimationFrame\<close>.\<close>

definition scroll_frame_callback :: "real \<Rightarrow> page \<Rightarrow> page" where
  "scroll_frame_callback now p =
     (if now - lastScrollTime p \<ge> SCROLL_DEBOUNCE
      then resumeAllObservers
             (p\<lparr>isScrolling := False,
                bodyClassList := bodyClassList p - {''scrolling-active''},
                htmlClassList := htmlClassList p - {''performance-mode''}\<rparr>)
      else p)"

subsection \<open>The event loop\<close>

text \<open>
  A frame runs the callbacks that were queued before it, in the order of their requests.
  A timer fires at or after its due time, once, unless it was cleared.
\<close>

definition run_frame_callback :: "real \<Rightarrow> frame_callback \<Rightarrow> page \<Rightarrow> page" where
  "run_frame_callback now cb p =
     (case cb of
        ObserverFrame mutations \<Rightarrow> dispatch_handlers mutations p
      | ScrollFrame \<Rightarrow> scroll_frame_callback now p)"

definition animation_frame :: "real \<Rightarrow> page \<Rightarrow> page" where
  "animation_frame now p =
     fold (run_frame_callback now) (map snd (raf_queue p)) (p\<lparr>raf_queue := []\<rparr>)"

definition timer_fires :: "nat \<Rightarrow> real \<Rightarrow> page \<Rightarrow> page" where
  "timer_fires h now p =
     (case map_of (timers p) h of
        Some due \<Rightarrow>
          if due \<le> now
          then scroll_timeout_callback (p\<lparr>timers := filter (\<lambda>e. fst e \<noteq> h) (timers p)\<rparr>)
          else p
      | None \<Rightarrow> p)"

datatype browser_event =
    ScrollInput real
  | TimerFires nat real
  | AnimationFrame real
  | Mutations "MutationRecord list"

fun step :: "browser_event \<Rightarrow> page \<Rightarrow> page" where
  "step (ScrollInput now) p = handleScroll now p"
| "step (TimerFires h now) p = timer_fires h now p"
| "step (AnimationFrame now) p = animation_frame now p"
| "step (Mutations mutations) p = deliver_mutations mutations p"

definition run :: "browser_event list \<Rightarrow> page \<Rightarrow> page" where
  "run evs p = fold step evs p"

subsection \<open>Notions used to state the properties of the observer\<close>

text \<open>The batches of the observer's frame callbacks in a list of frame callbacks.\<close>

fun frame_batches :: "frame_callback list \<Rightarrow> MutationRecord list list" where
  "frame_batches [] = []"
| "frame_batches (ObserverFrame m # cs) = m # frame_batches cs"
| "frame_batches (ScrollFrame # cs) = frame_batches cs"

definition pending_batches :: "page \<Rightarrow> MutationRecord list list" where
  "pending_batches p = frame_batches (map snd (raf_queue p))"

text \<open>
  A page is coherent when every frame callback of the observer that is still queued is the
  one \<^verbatim>\<open>observerRafId\<close> refers to, and the handler map has one entry for each key, the
  entry holding that key as its id.
\<close>

fun is_observer_frame :: "frame_callback \<Rightarrow> bool" where
  "is_observer_frame (ObserverFrame m) = True"
| "is_observer_frame ScrollFrame = False"

definition frames_ok :: "page \<Rightarrow> bool" where
  "frames_ok p \<longleftrightarrow>
     (\<forall>e \<in> set (raf_queue p).
        is_observer_frame (snd e) \<longrightarrow> observerRafId p = Some (fst e) \<and> fst e \<noteq> 0)"

definition handlers_ok :: "page \<Rightarrow> bool" where
  "handlers_ok p \<longleftrightarrow>
     distinct (map fst (observerHandlers p))
     \<and> (\<forall>e \<in> set (observerHandlers p). handler_id (snd e) = fst e)"

text \<open>Calls of handlers in the record of calls, and the calls of one handler.\<close>

fun is_handler_call :: "call \<Rightarrow> bool" where
  "is_handler_call (HandlerCall i cb m) = True"
| "is_handler_call PauseAll = False"
| "is_handler_call ResumeAll = False"

fun is_call_of :: "string \<Rightarrow> call \<Rightarrow> bool" where
  "is_call_of i (HandlerCall j cb m) = (j = i)"
| "is_call_of i PauseAll = False"
| "is_call_of i ResumeAll = False"

definition handler_calls :: "string \<Rightarrow> call list \<Rightarrow> nat" where
  "handler_calls i cs = length (filter (is_call_of i) cs)"

text \<open>The calls made by one dispatch of the batch \<open>m\<close>: one for each active handler, in order.\<close>

definition dispatch_list :: "MutationRecord list \<Rightarrow> page \<Rightarrow> call list" where
  "dispatch_list m p =
     map (\<lambda>h. HandlerCall (handler_id h) (callback h) m) (filter active (map snd (observerHandlers p)))"

text \<open>The frame queue after the cancellation done by \<open>observer_callback\<close>.\<close>

definition cancelled_queue :: "page \<Rightarrow> (nat \<times> frame_callback) list" where
  "cancelled_queue p =
     (case observerRafId p of
        Some h \<Rightarrow> if h \<noteq> 0 then filter (\<lambda>e. fst e \<noteq> h) (raf_queue p) else raf_queue p
      | None \<Rightarrow> raf_queue p)"

text \<open>The calls of the handler \<open>i\<close> in one dispatch over the handler list \<open>hs\<close>.\<close>

definition calls_to :: "string \<Rightarrow> MutationRecord list \<Rightarrow> (string \<times> ObserverHandler) list \<Rightarrow> call list" where
  "calls_to i m hs =
     filter (is_call_of i)
       (map (\<lambda>h. HandlerCall (handler_id h) (callback h) m) (filter active (map snd hs)))"

text \<open>Two registered handlers, the second one switched off.\<close>

definition two_handlers :: page where
  "two_handlers =
     setObserverHandlerActive ''icon-injection'' False
       (registerObserverHandler ''icon-injection'' 8
         (registerObserverHandler ''title-bar'' 7 initial_page))"

subsection \<open>Notions used to state the properties of the scroll monitor\<close>

text \<open>
  The same coherence for the scroll monitor: a queued frame callback of the monitor is the one
  \<^verbatim>\<open>rafId\<close> refers to, and no pending timer has a handle that is yet to be handed out.
\<close>

definition scroll_frames_ok :: "page \<Rightarrow> bool" where
  "scroll_frames_ok p \<longleftrightarrow>
     (\<forall>e \<in> set (raf_queue p). snd e = ScrollFrame \<longrightarrow> rafId p = Some (fst e) \<and> fst e \<noteq> 0)"

definition timers_ok :: "page \<Rightarrow> bool" where
  "timers_ok p \<longleftrightarrow> (\<forall>e \<in> set (timers p). fst e \<le> timer_counter p)"

text \<open>
  All of it together. It holds in the initial page, and registering, unregistering and
  switching a handler keep it, as does every event.
\<close>

definition page_ok :: "page \<Rightarrow> bool" where
  "page_ok p \<longleftrightarrow> frames_ok p \<and> handlers_ok p \<and> scroll_frames_ok p \<and> timers_ok p"

text \<open>The timers after \<^verbatim>\<open>clearTimeout(scrollTimeout)\<close>, the frame queue after
  \<^verbatim>\<open>cancelAnimationFrame(rafId)\<close>.\<close>

definition cleared_timers :: "page \<Rightarrow> (nat \<times> real) list" where
  "cleared_timers p =
     (case scrollTimeout p of
        Some h \<Rightarrow> if h \<noteq> 0 then filter (\<lambda>e. fst e \<noteq> h) (timers p) else timers p
      | None \<Rightarrow> timers p)"

definition cancelled_scroll_queue :: "page \<Rightarrow> (nat \<times> frame_callback) list" where
  "cancelled_scroll_queue p =
     (case rafId p of
        Some h \<Rightarrow> if h \<noteq> 0 then filter (\<lambda>e. fst e \<noteq> h) (raf_queue p) else raf_queue p
      | None \<Rightarrow> raf_queue p)"

text \<open>
  From a state \<open>p\<close>, the first call of \<^verbatim>\<open>setTimeout\<close> returns \<open>first_timer p\<close> and the
  second one \<open>second_timer p\<close>.
\<close>

definition first_timer :: "page \<Rightarrow> nat" where
  "first_timer p = Suc (timer_counter p)"

definition second_timer :: "page \<Rightarrow> nat" where
  "second_timer p = Suc (Suc (timer_counter p))"

text \<open>How often \<^verbatim>\<open>pauseAllObservers\<close> and \<^verbatim>\<open>resumeAllObservers\<close> have been called.\<close>

definition pauses :: "page \<Rightarrow> nat" where
  "pauses p = count_list (calls p) PauseAll"

definition resumes :: "page \<Rightarrow> nat" where
  "resumes p = count_list (calls p) ResumeAll"

text \<open>
  The two states of the monitor: Active is the flag \<^verbatim>\<open>isScrolling\<close> with both markers set,
  Idle is the flag cleared with both markers removed.
\<close>

definition scroll_active :: "page \<Rightarrow> bool" where
  "scroll_active p \<longleftrightarrow>
     isScrolling p \<and> ''scrolling-active'' \<in> bodyClassList p \<and> ''performance-mode'' \<in> htmlClassList p"

definition scroll_idle :: "page \<Rightarrow> bool" where
  "scroll_idle p \<longleftrightarrow>
     \<not> isScrolling p \<and> ''scrolling-active'' \<notin> bodyClassList p \<and> ''performance-mode'' \<notin> htmlClassList p"

section \<open>External player interception\<close>

text \<open>
  The second part of \<^verbatim>\<open>src/preload.ts\<close>: the routine that diverts playback to VLC or
  MPC-HC. Its state is the flag \<^verbatim>\<open>isHandlingExternalPlayer\<close>, the class list of the body
  (here the routine uses the class \<^verbatim>\<open>external-player-active\<close>), the video elements of the
  document, the two settings it reads from \<^verbatim>\<open>localStorage\<close>, the messages sent on the
  channel \<^verbatim>\<open>LAUNCH_EXTERNAL_PLAYER\<close>, the calls of \<^verbatim>\<open>history.back()\<close> and the time spent
  in \<^verbatim>\<open>setTimeout\<close> waits.

  The file \<^verbatim>\<open>constants.ts\<close> is not part of the sources at hand, so the value of
  \<^verbatim>\<open>EXTERNAL_PLAYERS.BUILTIN\<close> is a parameter \<open>BUILTIN\<close> of every function that uses it,
  and the two storage keys are two fields of the state.
\<close>

subsection \<open>Strings\<close>

definition startsWith :: "string \<Rightarrow> string \<Rightarrow> bool" where
  "startsWith s p \<longleftrightarrow> take (length p) s = p"

fun includes_str :: "string \<Rightarrow> string \<Rightarrow> bool" where
  "includes_str [] p = (p = [])"
| "includes_str (c # cs) p = (startsWith (c # cs) p \<or> includes_str cs p)"

text \<open>A string or null is truthy when it is a string that is not empty.\<close>

definition truthy :: "string option \<Rightarrow> bool" where
  "truthy v \<longleftrightarrow> (case v of None \<Rightarrow> False | Some s \<Rightarrow> s \<noteq> [])"

text \<open>The characters of a truthy string.\<close>

definition chars :: "string option \<Rightarrow> string" where
  "chars v = (case v of None \<Rightarrow> [] | Some s \<Rightarrow> s)"

text \<open>
  The decimal numeral of a number, as a template literal prints it. Seasons, episodes and
  timestamps are integers.
\<close>

definition digit_char :: "nat \<Rightarrow> char" where
  "digit_char d = ''0123456789'' ! (d mod 10)"

fun decimal :: "nat \<Rightarrow> string" where
  "decimal n = (if 10 \<le> n then decimal (n div 10) else []) @ [digit_char n]"

declare decimal.simps [simp del]

definition string_of_number :: "int \<Rightarrow> string" where
  "string_of_number i = (if 0 \<le> i then decimal (nat i) else CHR ''-'' # decimal (nat (- i)))"

subsection \<open>The player state of the host\<close>

text \<open>
  What \<^verbatim>\<open>core.transport.getState("player")\<close> returns. The code reads it through chains
  of optional accesses only, so each chain is one optional field here, absent when any link
  of the chain is:
  \<^item> \<open>stream_content_url\<close> is \<^verbatim>\<open>stream?.content?.url\<close>,
  \<^item> \<open>selected_streaming\<close> is \<^verbatim>\<open>selected?.stream?.deepLinks?.externalPlayer?.streaming\<close>,
  \<^item> \<open>stream_url\<close> is \<^verbatim>\<open>stream?.url\<close> and \<open>stream_externalUrl\<close> is \<^verbatim>\<open>stream?.externalUrl\<close>,
  \<^item> \<open>meta_id\<close>, \<open>meta_type\<close>, \<open>meta_name\<close> are \<^verbatim>\<open>metaItem?.content?.id\<close>, \<^verbatim>\<open>.type\<close>, \<^verbatim>\<open>.name\<close>.
\<close>

record SeriesInfo =
  season :: "int option"
  episode :: "int option"

record PlayerState =
  stream_content_url :: "string option"
  selected_streaming :: "string option"
  stream_url :: "string option"
  stream_externalUrl :: "string option"
  meta_id :: "string option"
  meta_type :: "string option"
  meta_name :: "string option"
  seriesInfo :: "SeriesInfo option"
  title :: "string option"

text \<open>A promise is fulfilled with a value or rejected.\<close>

datatype 'a outcome = Rejected | Fulfilled 'a

text \<open>
  What the page shows to one attempt of the retry loop: the outcome of the first
  \<^verbatim>\<open>Helpers._eval\<close>, the outcome of the second one, and the \<^verbatim>\<open>src\<close> of the first video
  element, if there is a video element.
\<close>

record attempt_env =
  core_state :: "PlayerState option outcome"
  window_state :: "PlayerState option outcome"
  video_src :: "string option"

subsection \<open>State\<close>

record video =
  paused :: bool
  muted :: bool

record launch_request =
  launch_player :: string
  launch_url :: string
  launch_title :: string
  launch_customPath :: "string option"

record tab =
  isHandlingExternalPlayer :: bool
  bodyClasses :: "string set"
  videos :: "video list"
  stored_player :: "string option"
  stored_player_path :: "string option"
  sent :: "launch_request list"
  history_backs :: nat
  waited :: nat

definition stopAllVideos :: "tab \<Rightarrow> tab" where
  "stopAllVideos p = p\<lparr>videos := map (\<lambda>v. v\<lparr>paused := True, muted := True\<rparr>) (videos p)\<rparr>"

text \<open>One tick of the interval \<^verbatim>\<open>keepPaused\<close>.\<close>

definition keepPaused :: "tab \<Rightarrow> tab" where
  "keepPaused p =
     p\<lparr>videos := map (\<lambda>v. if \<not> paused v then v\<lparr>paused := True, muted := True\<rparr> else v) (videos p)\<rparr>"

definition wait :: "nat \<Rightarrow> tab \<Rightarrow> tab" where
  "wait ms p = p\<lparr>waited := waited p + ms\<rparr>"

subsection \<open>Locating the stream\<close>

text \<open>The test \<^verbatim>\<open>url && typeof url === 'string' && url.startsWith('http')\<close>.\<close>

definition is_stream_url :: "string option \<Rightarrow> bool" where
  "is_stream_url u \<longleftrightarrow> (case u of None \<Rightarrow> False | Some s \<Rightarrow> s \<noteq> [] \<and> startsWith s ''http'')"

definition possibleUrls :: "PlayerState \<Rightarrow> string option list" where
  "possibleUrls s = [stream_content_url s, selected_streaming s, stream_url s, stream_externalUrl s]"

text \<open>The loop over \<^verbatim>\<open>possibleUrls\<close>, which stops at the first one that passes the test.\<close>

fun first_stream_url :: "string option list \<Rightarrow> string option" where
  "first_stream_url [] = None"
| "first_stream_url (u # us) = (if is_stream_url u then u else first_stream_url us)"

definition find_stream_url :: "PlayerState \<Rightarrow> string option \<Rightarrow> string option" where
  "find_stream_url s src =
     (case first_stream_url (possibleUrls s) of
        Some u \<Rightarrow> Some u
      | None \<Rightarrow> if is_stream_url src then src else None)"

text \<open>
  The body of the \<^verbatim>\<open>try\<close> block of one attempt, from the value of \<^verbatim>\<open>playerState\<close> before
  it to the values of \<^verbatim>\<open>playerState\<close> and \<^verbatim>\<open>streamUrl\<close> after it. A rejected first
  \<^verbatim>\<open>_eval\<close> leaves \<^verbatim>\<open>playerState\<close> as it was; the second one is awaited only when the first
  gave null, and \<^verbatim>\<open>playerState\<close> is null by then.
\<close>

definition try_attempt :: "attempt_env \<Rightarrow> PlayerState option \<Rightarrow> PlayerState option \<times> string option" where
  "try_attempt e playerState =
     (case core_state e of
        Rejected \<Rightarrow> (playerState, None)
      | Fulfilled (Some s) \<Rightarrow> (Some s, find_stream_url s (video_src e))
      | Fulfilled None \<Rightarrow>
          (case window_state e of
             Rejected \<Rightarrow> (None, None)
           | Fulfilled None \<Rightarrow> (None, None)
           | Fulfilled (Some s) \<Rightarrow> (Some s, find_stream_url s (video_src e))))"

text \<open>
  The retry loop \<^verbatim>\<open>for (let attempt = 0; attempt < 20; attempt++)\<close>: it leaves with the
  URL as soon as an attempt finds one, and otherwise stops the videos, waits 200 ms and goes
  on. It returns the last values of \<^verbatim>\<open>playerState\<close> and \<^verbatim>\<open>streamUrl\<close>.
\<close>

function locate ::
  "(nat \<Rightarrow> attempt_env) \<Rightarrow> nat \<Rightarrow> PlayerState option \<Rightarrow> tab \<Rightarrow> PlayerState option \<times> string option \<times> tab"
where
  "locate env attempt playerState p =
     (if attempt < 20
      then (let r = try_attempt (env attempt) playerState
            in case snd r of
                 Some u \<Rightarrow> (fst r, Some u, p)
               | None \<Rightarrow> locate env (Suc attempt) (fst r) (wait 200 (stopAllVideos p)))
      else (playerState, None, p))"
  by pat_completeness auto
termination
  by (relation "measure (\<lambda>(env, attempt, playerState, p). 20 - attempt)") auto

declare locate.simps [simp del]

subsection \<open>The title\<close>

definition nonzero :: "int option \<Rightarrow> bool" where
  "nonzero n \<longleftrightarrow> (case n of None \<Rightarrow> False | Some i \<Rightarrow> i \<noteq> 0)"

definition number_text :: "int option \<Rightarrow> string" where
  "number_text n = (case n of None \<Rightarrow> ''undefined'' | Some i \<Rightarrow> string_of_number i)"

definition series_season :: "PlayerState \<Rightarrow> int option" where
  "series_season s = (case seriesInfo s of None \<Rightarrow> None | Some i \<Rightarrow> season i)"

definition series_episode :: "PlayerState \<Rightarrow> int option" where
  "series_episode s = (case seriesInfo s of None \<Rightarrow> None | Some i \<Rightarrow> episode i)"

definition build_title :: "PlayerState option \<Rightarrow> string" where
  "build_title playerState =
     (case playerState of
        None \<Rightarrow> ''Stremio Stream''
      | Some s \<Rightarrow>
          if truthy (meta_name s)
          then (if nonzero (series_season s) \<and> nonzero (series_episode s)
                then chars (meta_name s) @ '' S'' @ number_text (series_season s)
                       @ ''E'' @ number_text (series_episode s)
                else chars (meta_name s))
          else if truthy (title s) then chars (title s)
          else ''Stremio Stream'')"

subsection \<open>The interception routine\<close>

text \<open>
  \<^verbatim>\<open>handleExternalPlayerInterception\<close> is an \<^verbatim>\<open>async\<close> function. It runs without interruption
  up to its first \<^verbatim>\<open>await\<close>, which is in the first attempt of the retry loop:
  \<open>interception_start\<close> is that part, and returns the value of \<^verbatim>\<open>externalPlayer\<close> when the
  invocation goes on, and nothing when it has returned. \<open>interception_rest\<close> is what the
  invocation does from there to its end.
\<close>

definition builtin_or_m3u :: "string \<Rightarrow> string option \<Rightarrow> bool" where
  "builtin_or_m3u BUILTIN externalPlayer \<longleftrightarrow>
     \<not> truthy externalPlayer \<or> externalPlayer = Some BUILTIN \<or> externalPlayer = Some ''''
     \<or> externalPlayer = Some ''disabled'' \<or> externalPlayer = Some ''m3u''"

definition interception_start :: "string \<Rightarrow> tab \<Rightarrow> tab \<times> string option" where
  "interception_start BUILTIN p =
     (let externalPlayer = stored_player p
      in if isHandlingExternalPlayer p then (p, None)
         else if builtin_or_m3u BUILTIN externalPlayer
         then (p\<lparr>bodyClasses := bodyClasses p - {''external-player-active''}\<rparr>, None)
         else if externalPlayer \<noteq> Some ''vlc'' \<and> externalPlayer \<noteq> Some ''mpchc''
         then (p\<lparr>bodyClasses := bodyClasses p - {''external-player-active''}\<rparr>, None)
         else (stopAllVideos
                 (p\<lparr>isHandlingExternalPlayer := True,
                    bodyClasses := insert ''external-player-active'' (bodyClasses p)\<rparr>),
               externalPlayer))"

text \<open>
  The ten seconds after the launch: the interval \<^verbatim>\<open>keepPaused\<close> ticks every 100 ms until it
  is cleared. What the host does to the videos between two ticks is not part of the state.
\<close>

definition cooldown :: "tab \<Rightarrow> tab" where
  "cooldown p = wait 10000 ((keepPaused ^^ 99) p)"

definition interception_rest :: "(nat \<Rightarrow> attempt_env) \<Rightarrow> string \<Rightarrow> tab \<Rightarrow> tab" where
  "interception_rest env externalPlayer p =
     (let r = locate env 0 None p; playerState = fst r; streamUrl = fst (snd r); p1 = snd (snd r)
      in case streamUrl of
           None \<Rightarrow>
             p1\<lparr>bodyClasses := bodyClasses p1 - {''external-player-active''},
                isHandlingExternalPlayer := False\<rparr>
         | Some u \<Rightarrow>
             (let title = build_title playerState;
                  p2 = stopAllVideos p1;
                  customPath = (if truthy (stored_player_path p2) then stored_player_path p2 else None);
                  p3 = p2\<lparr>sent := sent p2 @
                          [\<lparr>launch_player = externalPlayer, launch_url = u, launch_title = title,
                            launch_customPath = customPath\<rparr>]\<rparr>;
                  p4 = cooldown p3;
                  p5 = p4\<lparr>bodyClasses := bodyClasses p4 - {''external-player-active''},
                          isHandlingExternalPlayer := False\<rparr>
              in p5\<lparr>history_backs := Suc (history_backs p5)\<rparr>))"

definition handleExternalPlayerInterception :: "string \<Rightarrow> (nat \<Rightarrow> attempt_env) \<Rightarrow> tab \<Rightarrow> tab" where
  "handleExternalPlayerInterception BUILTIN env p =
     (case interception_start BUILTIN p of
        (p1, None) \<Rightarrow> p1
      | (p1, Some externalPlayer) \<Rightarrow> interception_rest env externalPlayer p1)"

text \<open>
  The click listener \<^verbatim>\<open>handlePlayButtonClick\<close>; \<open>on_play_button\<close> says whether the click has
  a target that lies in a play button.
\<close>

definition handlePlayButtonClick :: "string \<Rightarrow> bool \<Rightarrow> tab \<Rightarrow> tab" where
  "handlePlayButtonClick BUILTIN on_play_button p =
     (if builtin_or_m3u BUILTIN (stored_player p) then p
      else if on_play_button
      then p\<lparr>isHandlingExternalPlayer := True,
              bodyClasses := insert ''external-player-active'' (bodyClasses p)\<rparr>
      else p)"

text \<open>
  The method put in place of \<^verbatim>\<open>HTMLVideoElement.prototype.play\<close>, for the video \<open>v\<close> it is
  called on. It returns the video and the outcome of the promise. \<^verbatim>\<open>originalVideoPlay\<close> is
  the method of the browser, a parameter here.
\<close>

definition video_play ::
  "string \<Rightarrow> (video \<Rightarrow> video \<times> unit outcome) \<Rightarrow> string option \<Rightarrow> string \<Rightarrow> video \<Rightarrow> video \<times> unit outcome"
where
  "video_play BUILTIN originalVideoPlay externalPlayer href v =
     (if truthy externalPlayer \<and> externalPlayer \<noteq> Some BUILTIN \<and> externalPlayer \<noteq> Some ''''
         \<and> externalPlayer \<noteq> Some ''disabled'' \<and> externalPlayer \<noteq> Some ''m3u''
         \<and> includes_str href ''#/player''
      then (v\<lparr>paused := True, muted := True\<rparr>, Fulfilled ())
      else originalVideoPlay v)"

subsection \<open>Invocations in flight\<close>

text \<open>
  Between its start and its end an invocation is suspended at an \<^verbatim>\<open>await\<close>, and other
  listeners run. A tab is the state together with the invocations in flight, each one with
  its value of \<^verbatim>\<open>externalPlayer\<close>. The events are: the route changes to a player route, so
  the routine is invoked; the oldest invocation in flight runs to its end; a click reaches
  \<^verbatim>\<open>handlePlayButtonClick\<close>.
\<close>

datatype tab_event =
    EnterPlayerRoute
  | InvocationEnds "nat \<Rightarrow> attempt_env"
  | Click bool

fun tab_step :: "string \<Rightarrow> tab_event \<Rightarrow> tab \<times> string list \<Rightarrow> tab \<times> string list" where
  "tab_step BUILTIN EnterPlayerRoute (p, inflight) =
     (case interception_start BUILTIN p of
        (p1, None) \<Rightarrow> (p1, inflight)
      | (p1, Some externalPlayer) \<Rightarrow> (p1, inflight @ [externalPlayer]))"
| "tab_step BUILTIN (InvocationEnds env) (p, inflight) =
     (case inflight of
        [] \<Rightarrow> (p, inflight)
      | externalPlayer # others \<Rightarrow> (interception_rest env externalPlayer p, others))"
| "tab_step BUILTIN (Click on_play_button) (p, inflight) =
     (handlePlayButtonClick BUILTIN on_play_button p, inflight)"

subsection \<open>Notions used to state the properties of the interception\<close>

text \<open>
  What one attempt finds and which player state it sees do not depend on the value of
  \<^verbatim>\<open>playerState\<close> before the attempt, so they are named on their own.
\<close>

definition found_url :: "attempt_env \<Rightarrow> string option" where
  "found_url e = snd (try_attempt e None)"

definition seen_state :: "attempt_env \<Rightarrow> PlayerState option" where
  "seen_state e = fst (try_attempt e None)"

text \<open>
  An attempt shows no URL when no player state that either \<^verbatim>\<open>_eval\<close> returns has a string
  starting with \<^verbatim>\<open>http\<close> in one of the four candidate fields, and the video element has no
  such \<^verbatim>\<open>src\<close>.
\<close>

fun fulfilled_states :: "PlayerState option outcome list \<Rightarrow> PlayerState list" where
  "fulfilled_states [] = []"
| "fulfilled_states (Fulfilled (Some s) # rs) = s # fulfilled_states rs"
| "fulfilled_states (r # rs) = fulfilled_states rs"

definition shows_no_url :: "attempt_env \<Rightarrow> bool" where
  "shows_no_url e \<longleftrightarrow>
     (\<forall>s \<in> set (fulfilled_states [core_state e, window_state e]).
        \<forall>u \<in> set (possibleUrls s). \<not> is_stream_url u)
     \<and> \<not> is_stream_url (video_src e)"

text \<open>The state after a failed attempt.\<close>

definition retry :: "tab \<Rightarrow> tab" where
  "retry p = wait 200 (stopAllVideos p)"

text \<open>
  Sample inputs: an attempt that sees no player state, a player state that holds a stream URL
  and nothing else, the same one with a name and an episode, a page that shows a given player
  state to the third attempt only, one that never shows any, and a tab set to VLC, idle or
  busy.
\<close>

definition no_state :: attempt_env where
  "no_state = \<lparr>core_state = Fulfilled None, window_state = Fulfilled None, video_src = None\<rparr>"

definition empty_state :: PlayerState where
  "empty_state =
     \<lparr>stream_content_url = None, selected_streaming = None, stream_url = None,
      stream_externalUrl = None, meta_id = None, meta_type = None, meta_name = None,
      seriesInfo = None, title = None\<rparr>"

definition ready_state :: PlayerState where
  "ready_state = empty_state\<lparr>stream_content_url := Some ''https://x/stream.m3u8''\<rparr>"

definition third_attempt :: "PlayerState \<Rightarrow> nat \<Rightarrow> attempt_env" where
  "third_attempt s k =
     (if k = 2 then \<lparr>core_state = Fulfilled (Some s), window_state = Rejected, video_src = None\<rparr>
      else no_state)"

definition vlc_tab :: tab where
  "vlc_tab =
     \<lparr>isHandlingExternalPlayer = False, bodyClasses = {}, videos = [\<lparr>paused = False, muted = False\<rparr>],
      stored_player = Some ''vlc'', stored_player_path = None, sent = [], history_backs = 0,
      waited = 0\<rparr>"

text \<open>At most one invocation is in flight, and the flag is set while one is.\<close>

definition tab_ok :: "tab \<times> string list \<Rightarrow> bool" where
  "tab_ok t \<longleftrightarrow> length (snd t) \<le> 1 \<and> (snd t \<noteq> [] \<longrightarrow> isHandlingExternalPlayer (fst t))"

definition episode_state :: PlayerState where
  "episode_state =
     ready_state\<lparr>meta_name := Some ''Show'',
                 seriesInfo := Some \<lparr>season = Some 1, episode = Some 2\<rparr>\<rparr>"

definition never_ready :: "nat \<Rightarrow> attempt_env" where
  "never_ready k = no_state"

definition busy_tab :: tab where
  "busy_tab = vlc_tab\<lparr>isHandlingExternalPlayer := True\<rparr>"

text \<open>A native \<^verbatim>\<open>play\<close> whose promise is rejected, and a video that is playing.\<close>

definition rejecting_play :: "video \<Rightarrow> video \<times> unit outcome" where
  "rejecting_play v = (v, Rejected)"

definition playing_video :: video where
  "playing_video = \<lparr>paused = False, muted = False\<rparr>"

section \<open>Quick resume\<close>

text \<open>
  The third part of \<^verbatim>\<open>src/preload.ts\<close>: the map of last streams kept in \<^verbatim>\<open>localStorage\<close>
  under \<^verbatim>\<open>STORAGE_KEYS.LAST_STREAMS\<close>, as JSON text.

  The value of that key is modelled by what \<^verbatim>\<open>JSON.parse\<close> makes of it: nothing when the key
  is missing or holds the empty string, \<open>Malformed\<close> when the text is not JSON, and otherwise
  the object, as the list of its entries in the order of \<^verbatim>\<open>Object.entries\<close>. The keys
  written to the object are content ids such as \<^verbatim>\<open>tt1234567\<close>, alone or followed by a colon
  and an episode id; they are taken not to be array indices (which an object would list
  first) nor \<^verbatim>\<open>__proto__\<close> (whose assignment sets the prototype and adds no entry), and the
  text, when it is JSON, to be an object of records written by this code. A lookup may be of
  any string, and finds what the object inherits from \<^verbatim>\<open>Object.prototype\<close> as well.
\<close>

record SavedStreamInfo =
  streamHash :: string
  videoId :: string
  contentId :: string
  type :: string
  saved_season :: "int option"
  saved_episode :: "int option"
  timestamp :: int
  streamUrl :: "string option"

type_synonym saved_streams = "(string \<times> SavedStreamInfo) list"

datatype stored_streams = Malformed | Streams saved_streams

text \<open>
  \<^verbatim>\<open>JSON.parse(localStorage.getItem(STORAGE_KEYS.LAST_STREAMS) || '{}')\<close>, which throws on
  malformed text.
\<close>

definition JSON_parse :: "stored_streams option \<Rightarrow> saved_streams option" where
  "JSON_parse stored =
     (case stored of None \<Rightarrow> Some [] | Some Malformed \<Rightarrow> None | Some (Streams m) \<Rightarrow> Some m)"

subsection \<open>Routes\<close>

text \<open>
  The two regular expressions of this part are not anchored, so \<^verbatim>\<open>match\<close> takes the leftmost
  place where the literal prefix occurs and the rest matches. After the prefix,
  \<^verbatim>\<open>([^/]+)\<close> takes the longest run of characters other than a slash, which must not be
  empty and, when a slash has to follow, cannot be shortened to make a match.
\<close>

definition segment :: "string \<Rightarrow> string" where
  "segment s = takeWhile (\<lambda>c. c \<noteq> CHR ''/'') s"

definition after_segment :: "string \<Rightarrow> string" where
  "after_segment s = dropWhile (\<lambda>c. c \<noteq> CHR ''/'') s"

fun search_route :: "string \<Rightarrow> (string \<Rightarrow> 'a option) \<Rightarrow> string \<Rightarrow> 'a option" where
  "search_route lit m [] = None"
| "search_route lit m (c # cs) =
     (if startsWith (c # cs) lit
      then (case m (drop (length lit) (c # cs)) of
              Some r \<Rightarrow> Some r
            | None \<Rightarrow> search_route lit m cs)
      else search_route lit m cs)"

text \<open>
  \<^verbatim>\<open>/#\/player\/([^/]+)\/([^/]+)(?:\/(.+))?/\<close>, from the text after \<^verbatim>\<open>#/player/\<close>: the
  video id, the stream hash and, when a slash and at least one character other than a line
  end follow, the episode id, which runs to the end of the line.
\<close>

definition line :: "string \<Rightarrow> string" where
  "line s = takeWhile (\<lambda>c. c \<noteq> CHR 0x0A \<and> c \<noteq> CHR 0x0D) s"

definition match_player :: "string \<Rightarrow> (string \<times> string \<times> string option) option" where
  "match_player t =
     (if segment t = [] then None
      else case after_segment t of
             [] \<Rightarrow> None
           | slash # t2 \<Rightarrow>
               if segment t2 = [] then None
               else Some (segment t, segment t2,
                          (case after_segment t2 of
                             [] \<Rightarrow> None
                           | slash # t4 \<Rightarrow> if line t4 = [] then None else Some (line t4))))"

definition parse_player_route :: "string \<Rightarrow> (string \<times> string \<times> string option) option" where
  "parse_player_route hash = search_route ''#/player/'' match_player hash"

text \<open>\<^verbatim>\<open>/#\/detail\/([^/]+)\/([^/]+)/\<close>, of which the code uses the second group.\<close>

definition match_detail :: "string \<Rightarrow> string option" where
  "match_detail t =
     (if segment t = [] then None
      else case after_segment t of
             [] \<Rightarrow> None
           | slash # t2 \<Rightarrow> if segment t2 = [] then None else Some (segment t2))"

definition parse_detail_route :: "string \<Rightarrow> string option" where
  "parse_detail_route href = search_route ''#/detail/'' match_detail href"

subsection \<open>Saving\<close>

text \<open>
  The first half of \<^verbatim>\<open>saveCurrentStreamInfo\<close>, up to the storage key: from the player
  state, \<^verbatim>\<open>location.hash\<close> and \<^verbatim>\<open>Date.now()\<close> to the key and the record, or nothing when
  the function returns early.
\<close>

definition build_stream_info ::
  "PlayerState option \<Rightarrow> string \<Rightarrow> int \<Rightarrow> (string \<times> SavedStreamInfo) option"
where
  "build_stream_info playerState hash now =
     (case playerState of
        None \<Rightarrow> None
      | Some s \<Rightarrow>
          if \<not> truthy (meta_id s) then None
          else (case parse_player_route hash of
                  None \<Rightarrow> None
                | Some (video, stream, episodeId) \<Rightarrow>
                    (let content = chars (meta_id s);
                         contentType = (if truthy (meta_type s) then chars (meta_type s) else ''movie'');
                         streamInfo =
                           \<lparr>streamHash = stream, videoId = video, contentId = content,
                            type = contentType, saved_season = series_season s,
                            saved_episode = series_episode s, timestamp = now, streamUrl = None\<rparr>;
                         storageKey =
                           (if contentType = ''series'' \<and> truthy episodeId
                            then content @ '':'' @ chars episodeId else content)
                     in Some (storageKey, streamInfo))))"

text \<open>The two assignments to \<^verbatim>\<open>savedStreams\<close>.\<close>

definition write_entries :: "string \<Rightarrow> SavedStreamInfo \<Rightarrow> saved_streams \<Rightarrow> saved_streams" where
  "write_entries storageKey streamInfo savedStreams =
     (let s1 = AList.update storageKey streamInfo savedStreams
      in if type streamInfo = ''series'' then AList.update (contentId streamInfo) streamInfo s1 else s1)"

text \<open>
  \<^verbatim>\<open>Object.fromEntries\<close>, and the block that keeps the last 100 entries: \<^verbatim>\<open>sort\<close> is stable
  and its comparison puts the larger timestamp first.
\<close>

definition Object_fromEntries :: "saved_streams \<Rightarrow> saved_streams" where
  "Object_fromEntries es = fold (\<lambda>e m. AList.update (fst e) (snd e) m) es []"

definition newest_first :: "saved_streams \<Rightarrow> saved_streams" where
  "newest_first es = sort_key (\<lambda>e. - timestamp (snd e)) es"

definition trim_entries :: "saved_streams \<Rightarrow> saved_streams" where
  "trim_entries entries =
     (if length entries > 100 then Object_fromEntries (take 100 (newest_first entries))
      else entries)"

text \<open>
  The whole function. A rejected \<^verbatim>\<open>_eval\<close> and a \<^verbatim>\<open>JSON.parse\<close> that throws end in the
  \<^verbatim>\<open>catch\<close> block, which logs a warning; the stored value stays as it was.
\<close>

definition saveCurrentStreamInfo ::
  "PlayerState option outcome \<Rightarrow> string \<Rightarrow> int \<Rightarrow> stored_streams option \<Rightarrow> stored_streams option"
where
  "saveCurrentStreamInfo evalResult hash now stored =
     (case evalResult of
        Rejected \<Rightarrow> stored
      | Fulfilled playerState \<Rightarrow>
          (case build_stream_info playerState hash now of
             None \<Rightarrow> stored
           | Some (storageKey, streamInfo) \<Rightarrow>
               (case JSON_parse stored of
                  None \<Rightarrow> stored
                | Some savedStreams \<Rightarrow>
                    Some (Streams (trim_entries (write_entries storageKey streamInfo savedStreams))))))"

subsection \<open>Lookup and the click on a Continue Watching card\<close>

text \<open>
  \<^verbatim>\<open>savedStreams[contentId]\<close> gives the record stored under the key or, when the object has
  no entry of that name and \<^verbatim>\<open>Object.prototype\<close> has a member of that name, that member: a
  function, or for \<^verbatim>\<open>__proto__\<close> the prototype itself. Records and members are truthy, so
  \<^verbatim>\<open>|| null\<close> gives null only when neither is there.
\<close>

datatype property_value = Own SavedStreamInfo | Inherited string

definition Object_prototype_members :: "string list" where
  "Object_prototype_members =
     [''constructor'', ''__defineGetter__'', ''__defineSetter__'', ''hasOwnProperty'',
      ''__lookupGetter__'', ''__lookupSetter__'', ''isPrototypeOf'', ''propertyIsEnumerable'',
      ''toString'', ''valueOf'', ''__proto__'', ''toLocaleString'']"

definition get_property :: "saved_streams \<Rightarrow> string \<Rightarrow> property_value option" where
  "get_property obj key =
     (case map_of obj key of
        Some info \<Rightarrow> Some (Own info)
      | None \<Rightarrow> if key \<in> set Object_prototype_members then Some (Inherited key) else None)"

text \<open>The \<^verbatim>\<open>catch\<close> block of the lookup returns null when \<^verbatim>\<open>JSON.parse\<close> throws.\<close>

definition getSavedStreamInfo :: "stored_streams option \<Rightarrow> string \<Rightarrow> property_value option" where
  "getSavedStreamInfo stored content =
     (case JSON_parse stored of None \<Rightarrow> None | Some savedStreams \<Rightarrow> get_property savedStreams content)"

text \<open>
  What the listener reads from the click: whether the target lies in a meta item, the title
  of the board row in lower case (empty when there is none), and the \<^verbatim>\<open>href\<close> of the anchor of
  the meta item that leads to a detail page, if there is one. A click with no target is no
  click record at all.
\<close>

record click =
  in_meta_item :: bool
  rowTitle :: string
  anchor_href :: "string option"

definition thirtyDaysMs :: int where
  "thirtyDaysMs = 30 * 24 * 60 * 60 * 1000"

definition playerUrl :: "SavedStreamInfo \<Rightarrow> string" where
  "playerUrl savedStream =
     ''#/player/'' @ videoId savedStream @ ''/'' @ streamHash savedStream
     @ (if type savedStream = ''series'' \<and> nonzero (saved_season savedStream)
           \<and> nonzero (saved_episode savedStream)
        then ''/'' @ number_text (saved_season savedStream) @ '':''
             @ number_text (saved_episode savedStream)
        else [])"

text \<open>
  The listener returns the route it navigates to when it takes the click over
  (\<^verbatim>\<open>preventDefault\<close>, \<^verbatim>\<open>stopPropagation\<close> and the assignment to \<^verbatim>\<open>location.hash\<close>), and
  nothing when it leaves the click to the host. Of an inherited member every field it reads
  is undefined: the age is not a number, and so not greater than thirty days, the route is
  made of the text \<^verbatim>\<open>undefined\<close> twice, and the type is not \<^verbatim>\<open>series\<close>.
\<close>

definition handleContinueWatchingClick ::
  "click option \<Rightarrow> int \<Rightarrow> stored_streams option \<Rightarrow> string option"
where
  "handleContinueWatchingClick target now stored =
     (case target of
        None \<Rightarrow> None
      | Some e \<Rightarrow>
          if \<not> in_meta_item e then None
          else if \<not> includes_str (rowTitle e) ''continue'' \<and> \<not> includes_str (rowTitle e) ''watching''
          then None
          else (case anchor_href e of
                  None \<Rightarrow> None
                | Some href \<Rightarrow>
                    (case parse_detail_route href of
                       None \<Rightarrow> None
                     | Some content \<Rightarrow>
                         (case getSavedStreamInfo stored content of
                            None \<Rightarrow> None
                          | Some (Inherited member) \<Rightarrow> Some ''#/player/undefined/undefined''
                          | Some (Own savedStream) \<Rightarrow>
                              if now - timestamp savedStream > thirtyDaysMs then None
                              else Some (playerUrl savedStream)))))"

subsection \<open>Notions used to state the properties of quick resume\<close>

text \<open>Entries whose timestamp is later than a given one.\<close>

definition later :: "int \<Rightarrow> saved_streams \<Rightarrow> saved_streams" where
  "later t es = filter (\<lambda>e. t < timestamp (snd e)) es"

text \<open>Their keys.\<close>

definition later_keys :: "int \<Rightarrow> saved_streams \<Rightarrow> string set" where
  "later_keys t es = fst ` set (later t es)"

text \<open>The second half of \<^verbatim>\<open>saveCurrentStreamInfo\<close>, from the key and the record on.\<close>

definition store_entry :: "string \<times> SavedStreamInfo \<Rightarrow> saved_streams \<Rightarrow> saved_streams" where
  "store_entry w m = trim_entries (write_entries (fst w) (snd w) m)"

text \<open>
  One call of \<^verbatim>\<open>saveCurrentStreamInfo\<close> whose \<^verbatim>\<open>_eval\<close> is fulfilled: the player state, the
  hash and the time. Its entry is the key and the record it writes, if it gets that far.
\<close>

type_synonym save_input = "PlayerState option \<times> string \<times> int"

definition save_input :: "save_input \<Rightarrow> stored_streams option \<Rightarrow> stored_streams option" where
  "save_input i stored = saveCurrentStreamInfo (Fulfilled (fst i)) (fst (snd i)) (snd (snd i)) stored"



text \<open>The entries of the stored map, none when the value is missing or malformed.\<close>

definition stored_entries :: "stored_streams option \<Rightarrow> saved_streams" where
  "stored_entries stored = (case JSON_parse stored of None \<Rightarrow> [] | Some m \<Rightarrow> m)"


text \<open>
  Sample inputs: the player state of episode 2 of season 1 of the series \<^verbatim>\<open>tt1\<close>, its
  route, the record saved for it at time 1000, the map holding that record, a card of the
  Continue Watching row that leads to \<^verbatim>\<open>tt1\<close>, and, for each number \<open>n\<close>, the save of
  a movie at time \<open>n\<close> whose id is \<open>n + 1\<close> letters long.
\<close>

definition series_tt1 :: PlayerState where
  "series_tt1 =
     empty_state\<lparr>meta_id := Some ''tt1'', meta_type := Some ''series'',
                 seriesInfo := Some \<lparr>season = Some 1, episode = Some 2\<rparr>\<rparr>"

definition tt1_info :: SavedStreamInfo where
  "tt1_info =
     \<lparr>streamHash = ''hashA'', videoId = ''vid1'', contentId = ''tt1'', type = ''series'',
      saved_season = Some 1, saved_episode = Some 2, timestamp = 1000, streamUrl = None\<rparr>"


definition tt1_hash :: string where
  "tt1_hash = ''#/player/vid1/hashA/ep2''"

definition tt1_saved :: "stored_streams option" where
  "tt1_saved = Some (Streams [(''tt1:ep2'', tt1_info), (''tt1'', tt1_info)])"

definition tt1_card :: click where
  "tt1_card =
     \<lparr>in_meta_item = True, rowTitle = ''continue watching'',
      anchor_href = Some ''https://app/#/detail/series/tt1''\<rparr>"

text \<open>A day in milliseconds.\<close>

definition day :: int where
  "day = 24 * 60 * 60 * 1000"

text \<open>
  A special of the series \<^verbatim>\<open>tt1\<close>, episode 1 of season 0: its player state, its route, the
  record saved for it at time 1000 and the map holding that record.
\<close>

definition special_tt1 :: PlayerState where
  "special_tt1 =
     empty_state\<lparr>meta_id := Some ''tt1'', meta_type := Some ''series'',
                 seriesInfo := Some \<lparr>season = Some 0, episode = Some 1\<rparr>\<rparr>"

definition special_hash :: string where
  "special_hash = ''#/player/vid1/hashA/sp1''"

definition special_info :: SavedStreamInfo where
  "special_info =
     \<lparr>streamHash = ''hashA'', videoId = ''vid1'', contentId = ''tt1'', type = ''series'',
      saved_season = Some 0, saved_episode = Some 1, timestamp = 1000, streamUrl = None\<rparr>"

definition special_saved :: "stored_streams option" where
  "special_saved = Some (Streams [(''tt1:sp1'', special_info), (''tt1'', special_info)])"

text \<open>A card of the Continue Watching row whose content id is \<^verbatim>\<open>constructor\<close>.\<close>

definition constructor_card :: click where
  "constructor_card =
     \<lparr>in_meta_item = True, rowTitle = ''continue watching'',
      anchor_href = Some ''https://app/#/detail/movie/constructor''\<rparr>"

section \<open>Properties\<close>

subsection \<open>Properties of the unified observer\<close>

lemma unregister_last:
  assumes "set (map fst (observerHandlers p)) \<subseteq> {i}" and "unifiedObserver p = Some n"
    and "n < length (observers p)"
  shows "unifiedObserver (unregisterObserverHandler i p) = None"
    and "\<not> observing (unregisterObserverHandler i p) n"
    and "observerHandlers (unregisterObserverHandler i p) = []"
    and "length (observers (unregisterObserverHandler i p)) = length (observers p)"
proof -
  have "AList.delete i (observerHandlers p) = []"
    using assms(1) by (auto simp: AList.delete_eq filter_empty_conv)
  then show "unifiedObserver (unregisterObserverHandler i p) = None"
    and "\<not> observing (unregisterObserverHandler i p) n"
    and "observerHandlers (unregisterObserverHandler i p) = []"
    and "length (observers (unregisterObserverHandler i p)) = length (observers p)"
    using assms(2,3)
    by (simp_all add: unregisterObserverHandler_def disconnect_def observing_def)
qed

lemma register_fresh:
  assumes "unifiedObserver p = None"
  shows "unifiedObserver (registerObserverHandler j cb p) = Some (length (observers p))"
    and "observing (registerObserverHandler j cb p) (length (observers p))"
    and "map_of (observerHandlers (registerObserverHandler j cb p)) j
           = Some \<lparr>handler_id = j, callback = cb, active = True\<rparr>"
  using assms
  by (simp_all add: registerObserverHandler_def initUnifiedObserver_def new_MutationObserver_def
      observe_def observing_def AList.update_conv')

text \<open>
  C6. Unregistering the last handler stops the watcher: the observer is disconnected and the
  reference to it is dropped. Registering a handler afterwards creates a new observer, which
  observes, and the handler is registered and active.
\<close>

theorem unregister_last_stops_register_restarts:
  assumes "set (map fst (observerHandlers p)) = {i}" and "unifiedObserver p = Some n"
    and "n < length (observers p)"
  shows "unifiedObserver (unregisterObserverHandler i p) = None
       \<and> \<not> observing (unregisterObserverHandler i p) n
       \<and> observerHandlers (unregisterObserverHandler i p) = []
       \<and> (\<exists>n'. n' \<noteq> n
             \<and> unifiedObserver (registerObserverHandler j cb (unregisterObserverHandler i p)) = Some n'
             \<and> observing (registerObserverHandler j cb (unregisterObserverHandler i p)) n')
       \<and> map_of (observerHandlers (registerObserverHandler j cb (unregisterObserverHandler i p))) j
           = Some \<lparr>handler_id = j, callback = cb, active = True\<rparr>"
proof -
  let ?q = "unregisterObserverHandler i p"
  have sub: "set (map fst (observerHandlers p)) \<subseteq> {i}"
    using assms(1) by simp
  note u = unregister_last [OF sub assms(2,3)]
  note r = register_fresh [OF u(1), of j cb]
  have "length (observers ?q) \<noteq> n"
    using u(4) assms(3) by simp
  with u r show ?thesis
    by blast
qed

theorem unregister_last_stops_register_restarts_witness:
  "unifiedObserver (unregisterObserverHandler ''a'' (registerObserverHandler ''a'' 0 initial_page)) = None
   \<and> \<not> observing (unregisterObserverHandler ''a'' (registerObserverHandler ''a'' 0 initial_page)) 0
   \<and> unifiedObserver (registerObserverHandler ''b'' 1
        (unregisterObserverHandler ''a'' (registerObserverHandler ''a'' 0 initial_page))) = Some 1"
proof -
  let ?p = "registerObserverHandler ''a'' 0 initial_page"
  have h: "set (map fst (observerHandlers ?p)) = {''a''}" "unifiedObserver ?p = Some 0"
    "0 < length (observers ?p)"
    by (simp_all add: registerObserverHandler_def initUnifiedObserver_def new_MutationObserver_def
        observe_def initial_page_def)
  have r: "unifiedObserver (registerObserverHandler ''b'' 1 (unregisterObserverHandler ''a'' ?p)) = Some 1"
    by (simp add: registerObserverHandler_def initUnifiedObserver_def new_MutationObserver_def
        observe_def initial_page_def unregisterObserverHandler_def disconnect_def)
  show ?thesis
    using unregister_last_stops_register_restarts [OF h, of "''b''" 1] r by simp
qed

lemma frame_batches_Nil_iff: "frame_batches cs = [] \<longleftrightarrow> (\<forall>m. ObserverFrame m \<notin> set cs)"
  by (induction cs rule: frame_batches.induct) auto

lemma frame_batches_append: "frame_batches (xs @ ys) = frame_batches xs @ frame_batches ys"
  by (induction xs rule: frame_batches.induct) auto


lemma observer_callback_fields:
  "raf_queue (observer_callback b p) = cancelled_queue p @ [(Suc (raf_counter p), ObserverFrame b)]"
  "observerRafId (observer_callback b p) = Some (Suc (raf_counter p))"
  "observerHandlers (observer_callback b p) = observerHandlers p"
  "calls (observer_callback b p) = calls p"
  "unifiedObserver (observer_callback b p) = unifiedObserver p"
  "observers (observer_callback b p) = observers p"
  by (simp_all add: observer_callback_def requestAnimationFrame_def cancelAnimationFrame_def
      cancelled_queue_def Let_def split: option.splits)

lemma cancelled_queue_no_observer_frame:
  assumes "frames_ok p"
  shows "(h, ObserverFrame m) \<notin> set (cancelled_queue p)"
proof
  assume a: "(h, ObserverFrame m) \<in> set (cancelled_queue p)"
  then have "(h, ObserverFrame m) \<in> set (raf_queue p)"
    by (simp add: cancelled_queue_def split: option.splits if_splits)
  then have "observerRafId p = Some h" and "h \<noteq> 0"
    using assms unfolding frames_ok_def by fastforce+
  with a show False
    by (simp add: cancelled_queue_def)
qed

lemma observer_callback_pending:
  assumes "frames_ok p"
  shows "pending_batches (observer_callback b p) = [b]"
    and "frames_ok (observer_callback b p)"
proof -
  note n = cancelled_queue_no_observer_frame [OF assms]
  have "frame_batches (map snd (cancelled_queue p)) = []"
    unfolding frame_batches_Nil_iff
  proof
    fix m
    show "ObserverFrame m \<notin> set (map snd (cancelled_queue p))"
    proof
      assume "ObserverFrame m \<in> set (map snd (cancelled_queue p))"
      then obtain h where "(h, ObserverFrame m) \<in> set (cancelled_queue p)"
        by force
      with n show False by simp
    qed
  qed
  then show "pending_batches (observer_callback b p) = [b]"
    by (simp add: pending_batches_def observer_callback_fields frame_batches_append)
  show "frames_ok (observer_callback b p)"
    unfolding frames_ok_def observer_callback_fields
  proof
    fix e assume e: "e \<in> set (cancelled_queue p @ [(Suc (raf_counter p), ObserverFrame b)])"
    show "is_observer_frame (snd e) \<longrightarrow> Some (Suc (raf_counter p)) = Some (fst e) \<and> fst e \<noteq> 0"
    proof (cases "e \<in> set (cancelled_queue p)")
      case True
      have "\<not> is_observer_frame (snd e)"
      proof
        assume "is_observer_frame (snd e)"
        then obtain m where "snd e = ObserverFrame m"
          by (cases "snd e") simp_all
        then have "e = (fst e, ObserverFrame m)"
          by (simp add: prod_eq_iff)
        with True n [of "fst e" m] show False
          by simp
      qed
      then show ?thesis by simp
    next
      case False
      then show ?thesis using e by simp
    qed
  qed
qed

lemma deliveries_pending:
  assumes "batches \<noteq> []" and "frames_ok p" and "unifiedObserver p = Some n" and "observing p n"
  shows "pending_batches (fold deliver_mutations batches p) = [last batches]
       \<and> observerHandlers (fold deliver_mutations batches p) = observerHandlers p
       \<and> calls (fold deliver_mutations batches p) = calls p"
  using assms
proof (induction batches arbitrary: p)
  case Nil
  then show ?case by simp
next
  case (Cons b bs)
  have d: "deliver_mutations b p = observer_callback b p"
    using Cons.prems by (simp add: deliver_mutations_def)
  note oc = observer_callback_pending [OF Cons.prems(2), of b] observer_callback_fields(3-6) [of b p]
  show ?case
  proof (cases "bs = []")
    case True
    then show ?thesis using d oc by simp
  next
    case False
    have "observing (observer_callback b p) n"
      using Cons.prems(4) oc(6) by (simp add: observing_def)
    with Cons.IH [OF False oc(2)] oc(3,4,5) Cons.prems(3) False d show ?thesis
      by simp
  qed
qed

lemma scroll_frame_callback_calls:
  "observerHandlers (scroll_frame_callback t p) = observerHandlers p"
  "filter is_handler_call (calls (scroll_frame_callback t p)) = filter is_handler_call (calls p)"
  by (simp_all add: scroll_frame_callback_def resumeAllObservers_def observe_def Let_def
      split: option.splits)

lemma dispatch_handlers_calls:
  "observerHandlers (dispatch_handlers m p) = observerHandlers p"
  "calls (dispatch_handlers m p) = calls p @ dispatch_list m p"
  by (simp_all add: dispatch_handlers_def dispatch_list_def)

lemma filter_dispatch_list: "filter is_handler_call (dispatch_list m p) = dispatch_list m p"
  by (simp add: dispatch_list_def filter_map o_def)

lemma dispatch_list_cong:
  "observerHandlers q = observerHandlers p \<Longrightarrow> dispatch_list m q = dispatch_list m p"
  by (simp add: dispatch_list_def)

lemma frame_fold_calls:
  "observerHandlers (fold (run_frame_callback t) cbs p) = observerHandlers p
   \<and> filter is_handler_call (calls (fold (run_frame_callback t) cbs p))
       = filter is_handler_call (calls p) @ concat (map (\<lambda>m. dispatch_list m p) (frame_batches cbs))"
proof (induction cbs arbitrary: p rule: frame_batches.induct)
  case 1
  then show ?case by simp
next
  case (2 m cs)
  let ?q = "dispatch_handlers m p"
  have r: "run_frame_callback t (ObserverFrame m) p = ?q"
    by (simp add: run_frame_callback_def)
  have c: "(\<lambda>m'. dispatch_list m' ?q) = (\<lambda>m'. dispatch_list m' p)"
    using dispatch_list_cong [OF dispatch_handlers_calls(1)] by blast
  show ?case
    using 2 [of ?q] unfolding c
    by (simp add: r dispatch_handlers_calls filter_dispatch_list)
next
  case (3 cs)
  let ?q = "scroll_frame_callback t p"
  have r: "run_frame_callback t ScrollFrame p = ?q"
    by (simp add: run_frame_callback_def)
  have c: "(\<lambda>m'. dispatch_list m' ?q) = (\<lambda>m'. dispatch_list m' p)"
    using dispatch_list_cong [OF scroll_frame_callback_calls(1)] by blast
  show ?case
    using 3 [of ?q] unfolding c
    by (simp add: r scroll_frame_callback_calls)
qed


lemma calls_to_Nil: "calls_to i m [] = []"
  by (simp add: calls_to_def)

lemma calls_to_Cons:
  "calls_to i m (e # hs) =
     (if active (snd e) \<and> handler_id (snd e) = i
      then [HandlerCall (handler_id (snd e)) (callback (snd e)) m] else []) @ calls_to i m hs"
  by (simp add: calls_to_def)

lemma calls_to_absent:
  assumes "\<forall>e \<in> set hs. handler_id (snd e) = fst e" and "i \<notin> fst ` set hs"
  shows "calls_to i m hs = []"
  using assms by (induction hs) (auto simp: calls_to_Nil calls_to_Cons)

lemma calls_to_present:
  assumes "distinct (map fst hs)" and "\<forall>e \<in> set hs. handler_id (snd e) = fst e" and "(i, h) \<in> set hs"
  shows "length (calls_to i m hs) = (if active h then 1 else 0)"
  using assms
proof (induction hs)
  case Nil
  then show ?case by simp
next
  case (Cons e hs)
  show ?case
  proof (cases "e = (i, h)")
    case True
    then have "i \<notin> fst ` set hs"
      using Cons.prems(1) by simp
    from calls_to_absent [OF _ this, of m] Cons.prems(2) True show ?thesis
      by (simp add: calls_to_Cons)
  next
    case False
    then have in_tl: "(i, h) \<in> set hs"
      using Cons.prems(3) by simp
    then have "fst e \<noteq> i"
      using Cons.prems(1) by (cases e) force
    then have "handler_id (snd e) \<noteq> i"
      using Cons.prems(2) by simp
    moreover have "length (calls_to i m hs) = (if active h then 1 else 0)"
      using Cons.IH in_tl Cons.prems(1,2) by simp
    ultimately show ?thesis
      by (simp add: calls_to_Cons)
  qed
qed

lemma handler_calls_append: "handler_calls i (xs @ ys) = handler_calls i xs + handler_calls i ys"
  by (simp add: handler_calls_def)

lemma is_call_of_handler: "is_call_of i c \<Longrightarrow> is_handler_call c"
  by (cases c) simp_all

lemma handler_calls_filter: "handler_calls i (filter is_handler_call cs) = handler_calls i cs"
  using is_call_of_handler by (auto simp: handler_calls_def intro!: arg_cong [where f = length] filter_cong)

lemma frame_fold_queue:
  "raf_queue (fold (run_frame_callback t) cbs p) = raf_queue p
   \<and> (frame_batches cbs \<noteq> [] \<longrightarrow> observerRafId (fold (run_frame_callback t) cbs p) = None)"
proof (induction cbs arbitrary: p rule: rev_induct)
  case Nil
  then show ?case by simp
next
  case (snoc cb cbs)
  show ?case
  proof (cases cb)
    case (ObserverFrame m)
    then show ?thesis
      using snoc [of p]
      by (simp add: run_frame_callback_def dispatch_handlers_def frame_batches_append)
  next
    case ScrollFrame
    then show ?thesis
      using snoc [of p]
      by (simp add: run_frame_callback_def scroll_frame_callback_def resumeAllObservers_def
          observe_def Let_def frame_batches_append split: option.splits)
  qed
qed

text \<open>
  C5. Let the observer be connected, and let a burst of \<open>N \<ge> 1\<close> batches be delivered
  before the next frame. After the burst, one dispatch is pending, for the last batch: each
  delivery has cancelled the dispatch that was pending. The frame then calls every active
  handler once, in the order of registration, and no inactive handler; so the number of calls
  of each registered handler has grown by one if it is active and by zero if not. After the
  frame no dispatch is pending.
\<close>

theorem burst_one_dispatch:
  assumes "batches \<noteq> []" and "frames_ok p" and "handlers_ok p"
    and "unifiedObserver p = Some n" and "observing p n"
  shows "pending_batches (run (map Mutations batches) p) = [last batches]
       \<and> filter is_handler_call (calls (run (map Mutations batches @ [AnimationFrame t]) p))
           = filter is_handler_call (calls p) @ dispatch_list (last batches) p
       \<and> (\<forall>e \<in> set (observerHandlers p).
           handler_calls (fst e) (calls (run (map Mutations batches @ [AnimationFrame t]) p))
             = handler_calls (fst e) (calls p) + (if active (snd e) then 1 else 0))
       \<and> pending_batches (run (map Mutations batches @ [AnimationFrame t]) p) = []
       \<and> observerRafId (run (map Mutations batches @ [AnimationFrame t]) p) = None"
proof -
  let ?p1 = "fold deliver_mutations batches p"
  let ?r = "run (map Mutations batches @ [AnimationFrame t]) p"
  have step_eq: "(\<lambda>m. step (Mutations m)) = deliver_mutations"
    by (intro ext) simp
  then have run1: "run (map Mutations batches) p = ?p1"
    by (simp add: run_def fold_map o_def)
  from step_eq have run_eq: "?r = animation_frame t ?p1"
    by (simp add: run_def fold_map o_def)
  note d = deliveries_pending [OF assms(1,2,4,5)]
  have same: "observerHandlers (?p1\<lparr>raf_queue := []\<rparr>) = observerHandlers p"
    "calls (?p1\<lparr>raf_queue := []\<rparr>) = calls p"
    using d by simp_all
  have fb: "frame_batches (map snd (raf_queue ?p1)) = [last batches]"
    using d by (simp add: pending_batches_def)
  have pend: "pending_batches (run (map Mutations batches) p) = [last batches]"
    using d run1 by simp
  have main: "filter is_handler_call (calls ?r)
           = filter is_handler_call (calls p) @ dispatch_list (last batches) p"
    unfolding run_eq animation_frame_def
    using frame_fold_calls [of t "map snd (raf_queue ?p1)" "?p1\<lparr>raf_queue := []\<rparr>"]
      dispatch_list_cong [OF same(1), of "last batches"]
    by (simp add: fb same)
  have count: "\<forall>e \<in> set (observerHandlers p).
           handler_calls (fst e) (calls ?r)
             = handler_calls (fst e) (calls p) + (if active (snd e) then 1 else 0)"
  proof
    fix e assume e: "e \<in> set (observerHandlers p)"
    have "handler_calls (fst e) (calls ?r) = handler_calls (fst e) (filter is_handler_call (calls ?r))"
      by (simp add: handler_calls_filter)
    also have "\<dots> = handler_calls (fst e) (calls p) + handler_calls (fst e) (dispatch_list (last batches) p)"
      by (simp add: main handler_calls_append handler_calls_filter)
    also have "handler_calls (fst e) (dispatch_list (last batches) p)
        = length (calls_to (fst e) (last batches) (observerHandlers p))"
      by (simp add: handler_calls_def dispatch_list_def calls_to_def)
    also have "\<dots> = (if active (snd e) then 1 else 0)"
      using calls_to_present [of "observerHandlers p" "fst e" "snd e"] assms(3) e
      by (simp add: handlers_ok_def)
    finally show "handler_calls (fst e) (calls ?r)
             = handler_calls (fst e) (calls p) + (if active (snd e) then 1 else 0)" .
  qed
  have after: "pending_batches ?r = []" "observerRafId ?r = None"
    unfolding run_eq animation_frame_def pending_batches_def
    using frame_fold_queue [of t "map snd (raf_queue ?p1)" "?p1\<lparr>raf_queue := []\<rparr>"]
    by (simp_all add: fb)
  from pend main count after show ?thesis
    by blast
qed

theorem burst_one_dispatch_witness:
  "filter is_handler_call
     (calls (run [Mutations [1], Mutations [2], Mutations [3], AnimationFrame 16] two_handlers))
   = [HandlerCall ''title-bar'' 7 [3]]"
proof -
  have f: "observerHandlers two_handlers
    = [(''title-bar'', \<lparr>handler_id = ''title-bar'', callback = 7, active = True\<rparr>),
       (''icon-injection'', \<lparr>handler_id = ''icon-injection'', callback = 8, active = False\<rparr>)]"
    "unifiedObserver two_handlers = Some 0" "observers two_handlers = [True]"
    "raf_queue two_handlers = []" "calls two_handlers = []"
    by (simp_all add: two_handlers_def registerObserverHandler_def setObserverHandlerActive_def
        initUnifiedObserver_def new_MutationObserver_def observe_def initial_page_def)
  have h: "[[1], [2], [3::nat]] \<noteq> []" "frames_ok two_handlers" "handlers_ok two_handlers"
    "unifiedObserver two_handlers = Some 0" "observing two_handlers 0"
    by (simp_all add: f frames_ok_def handlers_ok_def observing_def)
  show ?thesis
    using burst_one_dispatch [OF h, of 16]
    by (simp add: f dispatch_list_def)
qed

subsection \<open>Properties of the scroll monitor\<close>

lemma pauseAllObservers_fields:
  "calls (pauseAllObservers p) = calls p @ [PauseAll]"
  "timers (pauseAllObservers p) = timers p"
  "timer_counter (pauseAllObservers p) = timer_counter p"
  "scrollTimeout (pauseAllObservers p) = scrollTimeout p"
  "raf_queue (pauseAllObservers p) = raf_queue p"
  "rafId (pauseAllObservers p) = rafId p"
  "isScrolling (pauseAllObservers p) = isScrolling p"
  "lastScrollTime (pauseAllObservers p) = lastScrollTime p"
  "bodyClassList (pauseAllObservers p) = bodyClassList p"
  "htmlClassList (pauseAllObservers p) = htmlClassList p"
  by (simp_all add: pauseAllObservers_def disconnect_def Let_def split: option.splits)

lemma resumeAllObservers_fields:
  "calls (resumeAllObservers p) = calls p @ [ResumeAll]"
  "timers (resumeAllObservers p) = timers p"
  "timer_counter (resumeAllObservers p) = timer_counter p"
  "scrollTimeout (resumeAllObservers p) = scrollTimeout p"
  "raf_queue (resumeAllObservers p) = raf_queue p"
  "rafId (resumeAllObservers p) = rafId p"
  "isScrolling (resumeAllObservers p) = isScrolling p"
  "lastScrollTime (resumeAllObservers p) = lastScrollTime p"
  "bodyClassList (resumeAllObservers p) = bodyClassList p"
  "htmlClassList (resumeAllObservers p) = htmlClassList p"
  by (simp_all add: resumeAllObservers_def observe_def Let_def split: option.splits)

lemma handleScroll_fields:
  "isScrolling (handleScroll t p)"
  "lastScrollTime (handleScroll t p) = t"
  "calls (handleScroll t p) = calls p @ (if isScrolling p then [] else [PauseAll])"
  "timers (handleScroll t p) = cleared_timers p @ [(Suc (timer_counter p), t + SCROLL_DEBOUNCE)]"
  "timer_counter (handleScroll t p) = Suc (timer_counter p)"
  "scrollTimeout (handleScroll t p) = Some (Suc (timer_counter p))"
  "raf_queue (handleScroll t p) = raf_queue p"
  "rafId (handleScroll t p) = rafId p"
  "bodyClassList (handleScroll t p)
     = (if isScrolling p then bodyClassList p else insert ''scrolling-active'' (bodyClassList p))"
  "htmlClassList (handleScroll t p)
     = (if isScrolling p then htmlClassList p else insert ''performance-mode'' (htmlClassList p))"
  by (simp_all add: handleScroll_def setTimeout_def clearTimeout_def cleared_timers_def
      pauseAllObservers_fields Let_def split: option.splits)

lemma scroll_timeout_callback_fields:
  "isScrolling (scroll_timeout_callback p) = isScrolling p"
  "lastScrollTime (scroll_timeout_callback p) = lastScrollTime p"
  "calls (scroll_timeout_callback p) = calls p"
  "timers (scroll_timeout_callback p) = timers p"
  "raf_queue (scroll_timeout_callback p) = cancelled_scroll_queue p @ [(Suc (raf_counter p), ScrollFrame)]"
  "rafId (scroll_timeout_callback p) = Some (Suc (raf_counter p))"
  "bodyClassList (scroll_timeout_callback p) = bodyClassList p"
  "htmlClassList (scroll_timeout_callback p) = htmlClassList p"
  by (simp_all add: scroll_timeout_callback_def requestAnimationFrame_def cancelAnimationFrame_def
      cancelled_scroll_queue_def Let_def split: option.splits)


lemma count_list_handler_calls:
  assumes "\<not> is_handler_call c"
  shows "count_list (map (\<lambda>h. HandlerCall (handler_id h) (callback h) m) hs) c = 0"
  using assms by (induction hs) auto

lemma dispatch_handlers_scroll_fields:
  assumes "\<not> is_handler_call c"
  shows "count_list (calls (dispatch_handlers m p)) c = count_list (calls p) c"
    and "isScrolling (dispatch_handlers m p) = isScrolling p"
    and "lastScrollTime (dispatch_handlers m p) = lastScrollTime p"
    and "bodyClassList (dispatch_handlers m p) = bodyClassList p"
    and "htmlClassList (dispatch_handlers m p) = htmlClassList p"
  using count_list_handler_calls [OF assms]
  by (simp_all add: dispatch_handlers_def)

lemma observer_frames_keep_scroll_state:
  assumes "ScrollFrame \<notin> set cbs" and "\<not> is_handler_call c"
  shows "count_list (calls (fold (run_frame_callback t) cbs p)) c = count_list (calls p) c
       \<and> isScrolling (fold (run_frame_callback t) cbs p) = isScrolling p
       \<and> lastScrollTime (fold (run_frame_callback t) cbs p) = lastScrollTime p
       \<and> bodyClassList (fold (run_frame_callback t) cbs p) = bodyClassList p
       \<and> htmlClassList (fold (run_frame_callback t) cbs p) = htmlClassList p"
  using assms(1)
proof (induction cbs arbitrary: p)
  case Nil
  then show ?case by simp
next
  case (Cons cb cbs)
  then obtain m where cb: "cb = ObserverFrame m"
    by (cases cb) auto
  have "ScrollFrame \<notin> set cbs"
    using Cons.prems by simp
  from Cons.IH [OF this, of "dispatch_handlers m p"] show ?case
    by (simp add: cb run_frame_callback_def dispatch_handlers_scroll_fields [OF assms(2)])
qed

lemma scroll_frame_callback_fields:
  "isScrolling (scroll_frame_callback t p) = (isScrolling p \<and> t - lastScrollTime p < SCROLL_DEBOUNCE)"
  "calls (scroll_frame_callback t p)
     = calls p @ (if t - lastScrollTime p \<ge> SCROLL_DEBOUNCE then [ResumeAll] else [])"
  "bodyClassList (scroll_frame_callback t p)
     = (if t - lastScrollTime p \<ge> SCROLL_DEBOUNCE then bodyClassList p - {''scrolling-active''}
        else bodyClassList p)"
  "htmlClassList (scroll_frame_callback t p)
     = (if t - lastScrollTime p \<ge> SCROLL_DEBOUNCE then htmlClassList p - {''performance-mode''}
        else htmlClassList p)"
  by (auto simp add: scroll_frame_callback_def resumeAllObservers_fields)

lemma cancelled_scroll_queue_no_scroll_frame:
  assumes "scroll_frames_ok p"
  shows "ScrollFrame \<notin> set (map snd (cancelled_scroll_queue p))"
proof
  assume "ScrollFrame \<in> set (map snd (cancelled_scroll_queue p))"
  then obtain h where a: "(h, ScrollFrame) \<in> set (cancelled_scroll_queue p)"
    by force
  then have "(h, ScrollFrame) \<in> set (raf_queue p)"
    by (simp add: cancelled_scroll_queue_def split: option.splits if_splits)
  then have "rafId p = Some h" and "h \<noteq> 0"
    using assms unfolding scroll_frames_ok_def by fastforce+
  with a show False
    by (simp add: cancelled_scroll_queue_def)
qed

text \<open>The frame that follows the timeout callback, seen from a state \<open>q\<close> just after it.\<close>

lemma frame_after_timeout:
  assumes "raf_queue q = cq @ [(h, ScrollFrame)]" and "ScrollFrame \<notin> set (map snd cq)"
    and "\<not> is_handler_call c"
  shows "isScrolling (animation_frame t q) = (isScrolling q \<and> t - lastScrollTime q < SCROLL_DEBOUNCE)"
    and "count_list (calls (animation_frame t q)) c
       = count_list (calls q) c
         + (if t - lastScrollTime q \<ge> SCROLL_DEBOUNCE \<and> c = ResumeAll then 1 else 0)"
    and "bodyClassList (animation_frame t q)
     = (if t - lastScrollTime q \<ge> SCROLL_DEBOUNCE then bodyClassList q - {''scrolling-active''}
        else bodyClassList q)"
    and "htmlClassList (animation_frame t q)
     = (if t - lastScrollTime q \<ge> SCROLL_DEBOUNCE then htmlClassList q - {''performance-mode''}
        else htmlClassList q)"
proof -
  let ?q0 = "q\<lparr>raf_queue := []\<rparr>"
  let ?q1 = "fold (run_frame_callback t) (map snd cq) ?q0"
  have eq: "animation_frame t q = scroll_frame_callback t ?q1"
    by (simp add: animation_frame_def assms(1) run_frame_callback_def)
  note k = observer_frames_keep_scroll_state [OF assms(2,3), of t ?q0]
  show "isScrolling (animation_frame t q) = (isScrolling q \<and> t - lastScrollTime q < SCROLL_DEBOUNCE)"
    and "count_list (calls (animation_frame t q)) c
       = count_list (calls q) c
         + (if t - lastScrollTime q \<ge> SCROLL_DEBOUNCE \<and> c = ResumeAll then 1 else 0)"
    and "bodyClassList (animation_frame t q)
     = (if t - lastScrollTime q \<ge> SCROLL_DEBOUNCE then bodyClassList q - {''scrolling-active''}
        else bodyClassList q)"
    and "htmlClassList (animation_frame t q)
     = (if t - lastScrollTime q \<ge> SCROLL_DEBOUNCE then htmlClassList q - {''performance-mode''}
        else htmlClassList q)"
    unfolding eq using k
    by (simp_all add: scroll_frame_callback_fields)
qed


lemma map_of_append_fresh:
  assumes "\<forall>e \<in> set xs. fst e \<noteq> k"
  shows "map_of (xs @ [(k, v)]) k = Some v" and "filter (\<lambda>e. fst e \<noteq> k) xs = xs"
  using assms by (induction xs) auto

lemma map_of_absent: "\<forall>e \<in> set xs. fst e \<noteq> k \<Longrightarrow> map_of xs k = None"
  by (induction xs) auto

lemma cleared_timers_subset: "set (cleared_timers p) \<subseteq> set (timers p)"
  by (auto simp: cleared_timers_def split: option.splits)

text \<open>
  C9. From an idle monitor, let two inputs arrive at \<open>t0\<close> and \<open>t1\<close>, less than the
  debounce window apart, let the timer armed by the second one fire at \<open>t2\<close>, when it is
  due, and let the next frame come at \<open>t3\<close>. The monitor is Active after the first input,
  after the second one and after the timer, with \<^verbatim>\<open>pauseAllObservers\<close> called once in all
  and \<^verbatim>\<open>resumeAllObservers\<close> not yet; the timer of the first input has been cleared, so
  it never fires. The frame makes the monitor Idle and calls \<^verbatim>\<open>resumeAllObservers\<close> once.
  The frame is where the decision is taken: had a further input arrived at \<open>t'\<close> before
  the frame at \<open>t''\<close>, the monitor would stay Active exactly if the frame comes less than
  the debounce window after that input, and it would resume only otherwise.
\<close>

theorem two_scroll_inputs_one_transition:
  assumes "\<not> isScrolling p" and "scroll_frames_ok p" and "timers_ok p"
    and "t0 \<le> t1" and "t1 < t0 + SCROLL_DEBOUNCE" and "t1 + SCROLL_DEBOUNCE \<le> t2" and "t2 \<le> t3"
  shows "scroll_active (run [ScrollInput t0] p)
       \<and> pauses (run [ScrollInput t0] p) = pauses p + 1
       \<and> resumes (run [ScrollInput t0] p) = resumes p
       \<and> scroll_active (run [ScrollInput t0, ScrollInput t1] p)
       \<and> pauses (run [ScrollInput t0, ScrollInput t1] p) = pauses p + 1
       \<and> resumes (run [ScrollInput t0, ScrollInput t1] p) = resumes p
       \<and> timer_fires (first_timer p) t (run [ScrollInput t0, ScrollInput t1] p)
           = run [ScrollInput t0, ScrollInput t1] p
       \<and> scroll_active (run [ScrollInput t0, ScrollInput t1, TimerFires (second_timer p) t2] p)
       \<and> pauses (run [ScrollInput t0, ScrollInput t1, TimerFires (second_timer p) t2] p) = pauses p + 1
       \<and> resumes (run [ScrollInput t0, ScrollInput t1, TimerFires (second_timer p) t2] p) = resumes p
       \<and> scroll_idle (run [ScrollInput t0, ScrollInput t1, TimerFires (second_timer p) t2,
                           AnimationFrame t3] p)
       \<and> pauses (run [ScrollInput t0, ScrollInput t1, TimerFires (second_timer p) t2,
                      AnimationFrame t3] p) = pauses p + 1
       \<and> resumes (run [ScrollInput t0, ScrollInput t1, TimerFires (second_timer p) t2,
                       AnimationFrame t3] p) = resumes p + 1
       \<and> isScrolling (run [ScrollInput t0, ScrollInput t1, TimerFires (second_timer p) t2,
                           ScrollInput t', AnimationFrame t''] p) = (t'' - t' < SCROLL_DEBOUNCE)
       \<and> resumes (run [ScrollInput t0, ScrollInput t1, TimerFires (second_timer p) t2,
                       ScrollInput t', AnimationFrame t''] p)
           = resumes p + (if t'' - t' < SCROLL_DEBOUNCE then 0 else 1)"
proof -
  let ?c = "timer_counter p"
  let ?q1 = "handleScroll t0 p"
  let ?q2 = "handleScroll t1 ?q1"
  let ?q2' = "?q2\<lparr>timers := filter (\<lambda>e. fst e \<noteq> Suc (Suc ?c)) (timers ?q2)\<rparr>"
  let ?q3 = "scroll_timeout_callback ?q2'"
  let ?q4 = "animation_frame t3 ?q3"
  let ?q3' = "handleScroll t' ?q3"
  let ?q4' = "animation_frame t'' ?q3'"
  note hs = handleScroll_fields
  have old: "\<forall>e \<in> set (cleared_timers p). fst e \<noteq> Suc ?c \<and> fst e \<noteq> Suc (Suc ?c)"
    using assms(3) cleared_timers_subset [of p] by (fastforce simp: timers_ok_def)
  have ct1: "cleared_timers ?q1 = cleared_timers p"
    using old by (simp add: cleared_timers_def hs map_of_append_fresh(2))
  have tq2: "timers ?q2 = cleared_timers p @ [(Suc (Suc ?c), t1 + SCROLL_DEBOUNCE)]"
    by (simp add: hs ct1)
  have due: "map_of (timers ?q2) (Suc (Suc ?c)) = Some (t1 + SCROLL_DEBOUNCE)"
    unfolding tq2 using old by (intro map_of_append_fresh(1)) simp
  have gone: "map_of (timers ?q2) (Suc ?c) = None"
    unfolding tq2 using old by (intro map_of_absent) simp
  have r1: "run [ScrollInput t0] p = ?q1" and r2: "run [ScrollInput t0, ScrollInput t1] p = ?q2"
    by (simp_all add: run_def)
  have r3: "run [ScrollInput t0, ScrollInput t1, TimerFires (second_timer p) t2] p = ?q3"
    using due assms(6) by (simp add: run_def second_timer_def timer_fires_def hs)
  have r4: "run [ScrollInput t0, ScrollInput t1, TimerFires (second_timer p) t2, AnimationFrame t3] p = ?q4"
    using r3 by (simp add: run_def)
  have r4': "run [ScrollInput t0, ScrollInput t1, TimerFires (second_timer p) t2,
      ScrollInput t', AnimationFrame t''] p = ?q4'"
    using r3 by (simp add: run_def)
  have a1: "scroll_active ?q1" "pauses ?q1 = pauses p + 1" "resumes ?q1 = resumes p"
    using assms(1) by (simp_all add: scroll_active_def pauses_def resumes_def hs)
  have a2: "scroll_active ?q2" "pauses ?q2 = pauses p + 1" "resumes ?q2 = resumes p"
    using assms(1) by (simp_all add: scroll_active_def pauses_def resumes_def hs)
  have cleared: "timer_fires (first_timer p) t ?q2 = ?q2"
    using gone by (simp add: timer_fires_def first_timer_def)
  note st = scroll_timeout_callback_fields
  have a3: "scroll_active ?q3" "pauses ?q3 = pauses p + 1" "resumes ?q3 = resumes p"
    using assms(1) by (simp_all add: scroll_active_def pauses_def resumes_def hs st)
  have sok: "scroll_frames_ok ?q2'"
    using assms(2) by (simp add: scroll_frames_ok_def hs)
  have q3q: "raf_queue ?q3 = cancelled_scroll_queue ?q2' @ [(Suc (raf_counter ?q2'), ScrollFrame)]"
    by (simp add: st)
  note ns = cancelled_scroll_queue_no_scroll_frame [OF sok]
  have last3: "lastScrollTime ?q3 = t1" "isScrolling ?q3"
    by (simp_all add: st hs)
  have pass: "t3 - t1 \<ge> SCROLL_DEBOUNCE"
    using assms(6,7) by simp
  have a4: "scroll_idle ?q4" "pauses ?q4 = pauses p + 1" "resumes ?q4 = resumes p + 1"
    using frame_after_timeout [OF q3q ns, of PauseAll t3]
      frame_after_timeout [OF q3q ns, of ResumeAll t3] a3 pass
    by (simp_all add: scroll_idle_def scroll_active_def pauses_def resumes_def last3)
  have q3q': "raf_queue ?q3' = cancelled_scroll_queue ?q2' @ [(Suc (raf_counter ?q2'), ScrollFrame)]"
    by (simp add: hs st)
  have last3': "lastScrollTime ?q3' = t'" "isScrolling ?q3'" "calls ?q3' = calls ?q3"
    by (simp_all add: hs st)
  have a5: "isScrolling ?q4' = (t'' - t' < SCROLL_DEBOUNCE)"
    "resumes ?q4' = resumes p + (if t'' - t' < SCROLL_DEBOUNCE then 0 else 1)"
    using frame_after_timeout [OF q3q' ns, of ResumeAll t''] a3
    by (simp_all add: resumes_def last3' not_less)
  show ?thesis
    unfolding r1 r2 r3 r4 r4' using a1 a2 cleared a3 a4 a5 by blast
qed

theorem two_scroll_inputs_one_transition_witness:
  "scroll_idle (run [ScrollInput 0, ScrollInput 10, TimerFires 2 60, AnimationFrame 66] initial_page)
   \<and> pauses (run [ScrollInput 0, ScrollInput 10, TimerFires 2 60, AnimationFrame 66] initial_page) = 1
   \<and> resumes (run [ScrollInput 0, ScrollInput 10, TimerFires 2 60, AnimationFrame 66] initial_page) = 1"
proof -
  have h: "\<not> isScrolling initial_page" "scroll_frames_ok initial_page" "timers_ok initial_page"
    "(0::real) \<le> 10" "(10::real) < 0 + SCROLL_DEBOUNCE" "(10::real) + SCROLL_DEBOUNCE \<le> 60"
    "(60::real) \<le> 66"
    by (simp_all add: initial_page_def scroll_frames_ok_def timers_ok_def SCROLL_DEBOUNCE_def)
  have s: "second_timer initial_page = 2" "pauses initial_page = 0" "resumes initial_page = 0"
    by (simp_all add: second_timer_def pauses_def resumes_def initial_page_def)
  show ?thesis
    using two_scroll_inputs_one_transition [OF h] by (simp add: s)
qed

subsection \<open>Coherence is an invariant\<close>

lemma initial_page_ok: "page_ok initial_page"
  by (simp add: page_ok_def frames_ok_def handlers_ok_def scroll_frames_ok_def timers_ok_def
      initial_page_def)

lemma queue_ok_cong:
  assumes "raf_queue q = raf_queue p" and "observerRafId q = observerRafId p" and "rafId q = rafId p"
  shows "frames_ok q = frames_ok p" and "scroll_frames_ok q = scroll_frames_ok p"
  using assms by (simp_all add: frames_ok_def scroll_frames_ok_def)

lemma handlers_ok_cong: "observerHandlers q = observerHandlers p \<Longrightarrow> handlers_ok q = handlers_ok p"
  by (simp add: handlers_ok_def)

lemma timers_ok_cong:
  "timers q = timers p \<Longrightarrow> timer_counter q = timer_counter p \<Longrightarrow> timers_ok q = timers_ok p"
  by (simp add: timers_ok_def)

lemma initUnifiedObserver_same:
  "raf_queue (initUnifiedObserver p) = raf_queue p"
  "observerRafId (initUnifiedObserver p) = observerRafId p"
  "rafId (initUnifiedObserver p) = rafId p"
  "timers (initUnifiedObserver p) = timers p"
  "timer_counter (initUnifiedObserver p) = timer_counter p"
  "observerHandlers (initUnifiedObserver p) = observerHandlers p"
  by (simp_all add: initUnifiedObserver_def new_MutationObserver_def observe_def split: option.splits)

lemma set_update_subset: "set (AList.update k v m) \<subseteq> insert (k, v) (set m)"
  by (induction m) auto

lemma handlers_update_ok:
  assumes "distinct (map fst hs)" and "\<forall>e \<in> set hs. handler_id (snd e) = fst e" and "handler_id h = i"
  shows "distinct (map fst (AList.update i h hs))"
    and "\<forall>e \<in> set (AList.update i h hs). handler_id (snd e) = fst e"
proof -
  show "distinct (map fst (AList.update i h hs))"
    using assms(1) by (rule distinct_update)
  show "\<forall>e \<in> set (AList.update i h hs). handler_id (snd e) = fst e"
  proof
    fix e assume "e \<in> set (AList.update i h hs)"
    then have "e = (i, h) \<or> e \<in> set hs"
      using set_update_subset [of i h hs] by blast
    then show "handler_id (snd e) = fst e"
      using assms(2,3) by auto
  qed
qed

lemma registerObserverHandler_ok:
  assumes "page_ok p"
  shows "page_ok (registerObserverHandler i cb p)"
proof -
  let ?q = "registerObserverHandler i cb p"
  have same: "raf_queue ?q = raf_queue p" "observerRafId ?q = observerRafId p" "rafId ?q = rafId p"
    "timers ?q = timers p" "timer_counter ?q = timer_counter p"
    by (simp_all add: registerObserverHandler_def Let_def initUnifiedObserver_same)
  have hs: "observerHandlers ?q
      = AList.update i \<lparr>handler_id = i, callback = cb, active = True\<rparr> (observerHandlers p)"
    by (simp add: registerObserverHandler_def Let_def initUnifiedObserver_same)
  have "handlers_ok ?q"
    using assms handlers_update_ok [of "observerHandlers p" "\<lparr>handler_id = i, callback = cb, active = True\<rparr>" i]
    unfolding page_ok_def handlers_ok_def hs by simp
  then show ?thesis
    using assms queue_ok_cong [OF same(1-3)] timers_ok_cong [OF same(4,5)]
    by (simp add: page_ok_def)
qed


lemma setObserverHandlerActive_ok:
  assumes "page_ok p"
  shows "page_ok (setObserverHandlerActive i a p)"
proof (cases "map_of (observerHandlers p) i")
  case None
  then show ?thesis
    using assms by (simp add: setObserverHandlerActive_def)
next
  case (Some h)
  let ?q = "setObserverHandlerActive i a p"
  have same: "raf_queue ?q = raf_queue p" "observerRafId ?q = observerRafId p" "rafId ?q = rafId p"
    "timers ?q = timers p" "timer_counter ?q = timer_counter p"
    by (simp_all add: setObserverHandlerActive_def Some)
  have hs: "observerHandlers ?q = AList.update i (h\<lparr>active := a\<rparr>) (observerHandlers p)"
    by (simp add: setObserverHandlerActive_def Some)
  have "(i, h) \<in> set (observerHandlers p)"
    using Some by (rule map_of_SomeD)
  then have "handler_id (h\<lparr>active := a\<rparr>) = i"
    using assms by (fastforce simp: page_ok_def handlers_ok_def)
  then have "handlers_ok ?q"
    using assms handlers_update_ok [of "observerHandlers p" "h\<lparr>active := a\<rparr>" i]
    unfolding page_ok_def handlers_ok_def hs by simp
  then show ?thesis
    using assms queue_ok_cong [OF same(1-3)] timers_ok_cong [OF same(4,5)]
    by (simp add: page_ok_def)
qed

lemma unregisterObserverHandler_ok:
  assumes "page_ok p"
  shows "page_ok (unregisterObserverHandler i p)"
proof -
  let ?q = "unregisterObserverHandler i p"
  have same: "raf_queue ?q = raf_queue p" "observerRafId ?q = observerRafId p" "rafId ?q = rafId p"
    "timers ?q = timers p" "timer_counter ?q = timer_counter p"
    "observerHandlers ?q = AList.delete i (observerHandlers p)"
    by (simp_all add: unregisterObserverHandler_def Let_def disconnect_def split: option.splits)
  have "set (AList.delete i (observerHandlers p)) \<subseteq> set (observerHandlers p)"
    by (auto simp: AList.delete_eq)
  then have "handlers_ok ?q"
    using assms unfolding page_ok_def handlers_ok_def same(6)
    by (auto simp: distinct_delete)
  then show ?thesis
    using assms queue_ok_cong [OF same(1-3)] timers_ok_cong [OF same(4,5)]
    by (simp add: page_ok_def)
qed

lemma handleScroll_ok:
  assumes "page_ok p"
  shows "page_ok (handleScroll t p)"
proof -
  let ?q = "handleScroll t p"
  note hs = handleScroll_fields [of t p]
  have oh: "observerHandlers ?q = observerHandlers p" "observerRafId ?q = observerRafId p"
    by (simp_all add: handleScroll_def setTimeout_def clearTimeout_def pauseAllObservers_def
        disconnect_def Let_def split: option.splits)
  have "timers_ok ?q"
    using assms cleared_timers_subset [of p]
    unfolding page_ok_def timers_ok_def hs by fastforce
  then show ?thesis
    using assms queue_ok_cong [OF hs(7) oh(2) hs(8)] handlers_ok_cong [OF oh(1)]
    by (simp add: page_ok_def)
qed

lemma deliver_mutations_ok:
  assumes "page_ok p"
  shows "page_ok (deliver_mutations m p)"
proof (cases "deliver_mutations m p = p")
  case True
  then show ?thesis using assms by simp
next
  case False
  then have d: "deliver_mutations m p = observer_callback m p"
    by (auto simp: deliver_mutations_def split: option.splits if_splits)
  let ?q = "observer_callback m p"
  note f = observer_callback_fields [of m p]
  have other: "rafId ?q = rafId p" "timers ?q = timers p" "timer_counter ?q = timer_counter p"
    by (simp_all add: observer_callback_def requestAnimationFrame_def cancelAnimationFrame_def
        Let_def split: option.splits)
  have fo: "frames_ok ?q"
    using assms observer_callback_pending(2) by (simp add: page_ok_def)
  have "set (cancelled_queue p) \<subseteq> set (raf_queue p)"
    by (auto simp: cancelled_queue_def split: option.splits)
  then have "scroll_frames_ok ?q"
    using assms unfolding page_ok_def scroll_frames_ok_def f other by auto
  then show ?thesis
    using assms fo handlers_ok_cong [OF f(3)] timers_ok_cong [OF other(2,3)]
    by (simp add: page_ok_def d)
qed


lemma timer_fires_ok:
  assumes "page_ok p"
  shows "page_ok (timer_fires h t p)"
proof (cases "timer_fires h t p = p")
  case True
  then show ?thesis using assms by simp
next
  case False
  let ?p' = "p\<lparr>timers := filter (\<lambda>e. fst e \<noteq> h) (timers p)\<rparr>"
  let ?q = "scroll_timeout_callback ?p'"
  from False have d: "timer_fires h t p = ?q"
    by (auto simp: timer_fires_def split: option.splits if_splits)
  note f = scroll_timeout_callback_fields [of ?p']
  have other: "observerRafId ?q = observerRafId p" "timer_counter ?q = timer_counter p"
    "observerHandlers ?q = observerHandlers p"
    by (simp_all add: scroll_timeout_callback_def requestAnimationFrame_def cancelAnimationFrame_def
        Let_def split: option.splits)
  have sub: "set (cancelled_scroll_queue ?p') \<subseteq> set (raf_queue p)"
    by (auto simp: cancelled_scroll_queue_def split: option.splits)
  have fo: "frames_ok ?q"
    using assms sub unfolding page_ok_def frames_ok_def f other by auto
  have "scroll_frames_ok ?p'"
    using assms by (simp add: page_ok_def scroll_frames_ok_def)
  from cancelled_scroll_queue_no_scroll_frame [OF this]
  have "\<forall>e \<in> set (cancelled_scroll_queue ?p'). snd e \<noteq> ScrollFrame"
    by (metis image_eqI set_map)
  then have so: "scroll_frames_ok ?q"
    unfolding scroll_frames_ok_def f by auto
  have to: "timers_ok ?q"
    using assms unfolding page_ok_def timers_ok_def f other by simp
  show ?thesis
    using assms fo so to handlers_ok_cong [OF other(3)]
    by (simp add: page_ok_def d)
qed

lemma frame_fold_timers:
  "timers (fold (run_frame_callback t) cbs p) = timers p
   \<and> timer_counter (fold (run_frame_callback t) cbs p) = timer_counter p"
proof (induction cbs arbitrary: p)
  case Nil
  then show ?case by simp
next
  case (Cons cb cbs)
  have "timers (run_frame_callback t cb p) = timers p
      \<and> timer_counter (run_frame_callback t cb p) = timer_counter p"
    by (cases cb)
       (simp_all add: run_frame_callback_def dispatch_handlers_def scroll_frame_callback_def
         resumeAllObservers_fields resumeAllObservers_def observe_def Let_def split: option.splits)
  with Cons [of "run_frame_callback t cb p"] show ?case
    by simp
qed

lemma animation_frame_ok:
  assumes "page_ok p"
  shows "page_ok (animation_frame t p)"
proof -
  let ?p0 = "p\<lparr>raf_queue := []\<rparr>"
  let ?q = "animation_frame t p"
  have q: "raf_queue ?q = []"
    using frame_fold_queue [of t "map snd (raf_queue p)" ?p0] by (simp add: animation_frame_def)
  have h: "observerHandlers ?q = observerHandlers p"
    using frame_fold_calls [of t "map snd (raf_queue p)" ?p0] by (simp add: animation_frame_def)
  have tm: "timers ?q = timers p" "timer_counter ?q = timer_counter p"
    using frame_fold_timers [of t "map snd (raf_queue p)" ?p0] by (simp_all add: animation_frame_def)
  show ?thesis
    using assms handlers_ok_cong [OF h] timers_ok_cong [OF tm]
    by (simp add: page_ok_def frames_ok_def scroll_frames_ok_def q)
qed

lemma step_ok: "page_ok p \<Longrightarrow> page_ok (step ev p)"
  by (cases ev) (simp_all add: handleScroll_ok timer_fires_ok animation_frame_ok deliver_mutations_ok)

lemma run_ok: "page_ok p \<Longrightarrow> page_ok (run evs p)"
  unfolding run_def by (induction evs arbitrary: p) (simp_all add: step_ok)

subsection \<open>Properties of the interception\<close>

lemma try_attempt_snd: "snd (try_attempt e q) = found_url e"
  by (simp add: try_attempt_def found_url_def split: outcome.splits option.splits)

lemma try_attempt_fst: "found_url e \<noteq> None \<Longrightarrow> fst (try_attempt e q) = seen_state e"
  by (simp add: try_attempt_def found_url_def seen_state_def split: outcome.splits option.splits)

lemma first_stream_url_None: "\<forall>u \<in> set us. \<not> is_stream_url u \<Longrightarrow> first_stream_url us = None"
  by (induction us) auto

lemma find_stream_url_None:
  "\<forall>u \<in> set (possibleUrls s). \<not> is_stream_url u \<Longrightarrow> \<not> is_stream_url src \<Longrightarrow> find_stream_url s src = None"
  by (simp add: find_stream_url_def first_stream_url_None)

lemma shows_no_url_found: "shows_no_url e \<Longrightarrow> found_url e = None"
  unfolding shows_no_url_def found_url_def try_attempt_def
  by (cases "core_state e"; cases "window_state e")
     (auto simp: find_stream_url_None split: option.splits)

lemma stopAllVideos_fields:
  "isHandlingExternalPlayer (stopAllVideos p) = isHandlingExternalPlayer p"
  "bodyClasses (stopAllVideos p) = bodyClasses p"
  "stored_player (stopAllVideos p) = stored_player p"
  "stored_player_path (stopAllVideos p) = stored_player_path p"
  "sent (stopAllVideos p) = sent p"
  "history_backs (stopAllVideos p) = history_backs p"
  "waited (stopAllVideos p) = waited p"
  by (simp_all add: stopAllVideos_def)

lemma wait_fields:
  "isHandlingExternalPlayer (wait n p) = isHandlingExternalPlayer p"
  "bodyClasses (wait n p) = bodyClasses p"
  "stored_player (wait n p) = stored_player p"
  "stored_player_path (wait n p) = stored_player_path p"
  "sent (wait n p) = sent p"
  "history_backs (wait n p) = history_backs p"
  "waited (wait n p) = waited p + n"
  by (simp_all add: wait_def)

lemma keepPaused_pow_fields:
  "isHandlingExternalPlayer ((keepPaused ^^ n) p) = isHandlingExternalPlayer p
   \<and> bodyClasses ((keepPaused ^^ n) p) = bodyClasses p
   \<and> stored_player ((keepPaused ^^ n) p) = stored_player p
   \<and> stored_player_path ((keepPaused ^^ n) p) = stored_player_path p
   \<and> sent ((keepPaused ^^ n) p) = sent p
   \<and> history_backs ((keepPaused ^^ n) p) = history_backs p
   \<and> waited ((keepPaused ^^ n) p) = waited p"
  by (induction n) (simp_all add: keepPaused_def)

lemma cooldown_fields:
  "isHandlingExternalPlayer (cooldown p) = isHandlingExternalPlayer p"
  "bodyClasses (cooldown p) = bodyClasses p"
  "stored_player (cooldown p) = stored_player p"
  "stored_player_path (cooldown p) = stored_player_path p"
  "sent (cooldown p) = sent p"
  "history_backs (cooldown p) = history_backs p"
  "waited (cooldown p) = waited p + 10000"
  using keepPaused_pow_fields [of 99 p] by (simp_all add: cooldown_def wait_fields)

lemma retry_pow_fields:
  "isHandlingExternalPlayer ((retry ^^ n) p) = isHandlingExternalPlayer p
   \<and> bodyClasses ((retry ^^ n) p) = bodyClasses p
   \<and> stored_player ((retry ^^ n) p) = stored_player p
   \<and> stored_player_path ((retry ^^ n) p) = stored_player_path p
   \<and> sent ((retry ^^ n) p) = sent p
   \<and> history_backs ((retry ^^ n) p) = history_backs p
   \<and> waited ((retry ^^ n) p) = waited p + 200 * n"
  by (induction n) (simp_all add: retry_def wait_fields stopAllVideos_fields)

lemma locate_exhausted:
  assumes "\<forall>k. attempt \<le> k \<and> k < 20 \<longrightarrow> found_url (env k) = None"
  shows "fst (snd (locate env attempt ps p)) = None
       \<and> snd (snd (locate env attempt ps p)) = (retry ^^ (20 - attempt)) p"
  using assms
proof (induction env attempt ps p rule: locate.induct)
  case (1 env attempt playerState p)
  show ?case
  proof (cases "attempt < 20")
    case False
    then show ?thesis by (simp add: locate.simps)
  next
    case True
    then have none: "snd (try_attempt (env attempt) playerState) = None"
      using "1.prems" by (simp add: try_attempt_snd)
    have "\<forall>k. Suc attempt \<le> k \<and> k < 20 \<longrightarrow> found_url (env k) = None"
      using "1.prems" by simp
    from "1.IH" [OF True refl none this, folded retry_def]
    have ih: "fst (snd (locate env (Suc attempt) (fst (try_attempt (env attempt) playerState)) (retry p))) = None
       \<and> snd (snd (locate env (Suc attempt) (fst (try_attempt (env attempt) playerState)) (retry p)))
          = (retry ^^ (20 - Suc attempt)) (retry p)"
      by simp
    have "20 - attempt = Suc (20 - Suc attempt)"
      using True by simp
    then have "(retry ^^ (20 - attempt)) p = (retry ^^ (20 - Suc attempt)) (retry p)"
      by (simp add: funpow_swap1)
    with ih True none show ?thesis
      by (subst (1 2) locate.simps) (simp add: Let_def retry_def [symmetric])
  qed
qed

lemma locate_found:
  assumes "attempt \<le> k" and "k < 20"
    and "\<forall>j. attempt \<le> j \<and> j < k \<longrightarrow> found_url (env j) = None"
    and "found_url (env k) = Some u"
  shows "locate env attempt ps p = (seen_state (env k), Some u, (retry ^^ (k - attempt)) p)"
  using assms
proof (induction env attempt ps p rule: locate.induct)
  case (1 env attempt playerState p)
  have lt: "attempt < 20"
    using "1.prems" by simp
  show ?case
  proof (cases "attempt = k")
    case True
    then have "try_attempt (env attempt) playerState = (seen_state (env k), Some u)"
      using "1.prems"(4) try_attempt_snd [of "env k" playerState] try_attempt_fst [of "env k" playerState]
      by (simp add: prod_eq_iff)
    with True lt show ?thesis
      by (subst locate.simps) simp
  next
    case False
    then have less: "attempt < k"
      using "1.prems"(1) by simp
    then have none: "snd (try_attempt (env attempt) playerState) = None"
      using "1.prems"(3) by (simp add: try_attempt_snd)
    have rest: "\<forall>j. Suc attempt \<le> j \<and> j < k \<longrightarrow> found_url (env j) = None"
      using "1.prems"(3) by simp
    from less have "Suc attempt \<le> k" by simp
    from "1.IH" [OF lt refl none this "1.prems"(2) rest "1.prems"(4), folded retry_def]
    have ih: "locate env (Suc attempt) (fst (try_attempt (env attempt) playerState)) (retry p)
        = (seen_state (env k), Some u, (retry ^^ (k - Suc attempt)) (retry p))"
      by simp
    have "k - attempt = Suc (k - Suc attempt)"
      using less by simp
    then have "(retry ^^ (k - attempt)) p = (retry ^^ (k - Suc attempt)) (retry p)"
      by (simp add: funpow_swap1)
    with ih lt none show ?thesis
      by (subst locate.simps) (simp add: Let_def retry_def [symmetric])
  qed
qed

lemma interception_start_busy: "isHandlingExternalPlayer p \<Longrightarrow> interception_start BUILTIN p = (p, None)"
  by (simp add: interception_start_def)

lemma interception_start_Some:
  "interception_start BUILTIN p = (p1, Some pl) \<Longrightarrow> isHandlingExternalPlayer p1"
  by (auto simp: interception_start_def Let_def stopAllVideos_fields split: if_splits)

lemma tab_step_ok:
  assumes "tab_ok t"
  shows "tab_ok (tab_step BUILTIN ev t)"
proof (cases t)
  case (Pair p inflight)
  show ?thesis
  proof (cases ev)
    case EnterPlayerRoute
    show ?thesis
    proof (cases "isHandlingExternalPlayer p")
      case True
      then show ?thesis
        using assms Pair EnterPlayerRoute by (simp add: interception_start_busy)
    next
      case False
      then have "inflight = []"
        using assms Pair by (simp add: tab_ok_def)
      then show ?thesis
        using Pair EnterPlayerRoute interception_start_Some [of BUILTIN p]
        by (auto simp: tab_ok_def split: prod.splits option.splits)
    qed
  next
    case (InvocationEnds env)
    then show ?thesis
      using assms Pair by (cases inflight) (simp_all add: tab_ok_def)
  next
    case (Click b)
    then show ?thesis
      using assms Pair by (simp add: tab_ok_def handlePlayButtonClick_def)
  qed
qed

lemma tab_fold_ok: "tab_ok t \<Longrightarrow> tab_ok (fold (tab_step BUILTIN) evs t)"
  by (induction evs arbitrary: t) (simp_all add: tab_step_ok)

text \<open>
  C2. When the flag \<^verbatim>\<open>isHandlingExternalPlayer\<close> is set, the routine returns at once and the
  state is the one before the call: the flag, the class list of the body, the messages sent
  and everything else. So the event of entering a player route changes nothing while the flag
  is set, and whatever the events from a tab with no invocation in flight, at most one
  invocation is in flight at any time.
\<close>

theorem busy_entry_is_noop:
  assumes "isHandlingExternalPlayer p"
  shows "handleExternalPlayerInterception BUILTIN env p = p
       \<and> tab_step BUILTIN EnterPlayerRoute (p, inflight) = (p, inflight)
       \<and> length (snd (fold (tab_step BUILTIN) evs (q, []))) \<le> 1"
proof -
  have "tab_ok (q, [])"
    by (simp add: tab_ok_def)
  then have "tab_ok (fold (tab_step BUILTIN) evs (q, []))"
    by (rule tab_fold_ok)
  then show ?thesis
    using assms
    by (simp add: handleExternalPlayerInterception_def interception_start_busy tab_ok_def)
qed

theorem busy_entry_is_noop_witness:
  "isHandlingExternalPlayer busy_tab
   \<and> handleExternalPlayerInterception ''builtin'' never_ready busy_tab = busy_tab
   \<and> length (snd (fold (tab_step ''builtin'')
                 [EnterPlayerRoute, Click True, EnterPlayerRoute, InvocationEnds never_ready,
                  EnterPlayerRoute] (vlc_tab, []))) \<le> 1"
proof -
  have h: "isHandlingExternalPlayer busy_tab"
    by (simp add: busy_tab_def)
  show ?thesis
    using h busy_entry_is_noop [OF h, of "''builtin''" never_ready "[]"
        "[EnterPlayerRoute, Click True, EnterPlayerRoute, InvocationEnds never_ready, EnterPlayerRoute]"
        vlc_tab]
    by blast
qed

text \<open>
  The click listener sets the same flag before the route changes. So when a click on a play
  button comes first, the routine finds the flag set on the player route and returns at once:
  nothing is located and nothing is sent.
\<close>

lemma click_before_route:
  assumes "\<not> builtin_or_m3u BUILTIN (stored_player p)"
  shows "handleExternalPlayerInterception BUILTIN env (handlePlayButtonClick BUILTIN True p)
         = handlePlayButtonClick BUILTIN True p"
  using assms
  by (simp add: handleExternalPlayerInterception_def handlePlayButtonClick_def
      interception_start_busy)

lemma interception_start_player:
  assumes "\<not> isHandlingExternalPlayer p" and "stored_player p = Some pl"
    and "pl = ''vlc'' \<or> pl = ''mpchc''" and "pl \<noteq> BUILTIN"
  shows "interception_start BUILTIN p
         = (stopAllVideos (p\<lparr>isHandlingExternalPlayer := True,
                              bodyClasses := insert ''external-player-active'' (bodyClasses p)\<rparr>),
            Some pl)"
  using assms by (auto simp: interception_start_def builtin_or_m3u_def truthy_def)

lemma interception_rest_exhausted:
  assumes "\<forall>k<20. found_url (env k) = None"
  shows "\<not> isHandlingExternalPlayer (interception_rest env pl p)"
    and "''external-player-active'' \<notin> bodyClasses (interception_rest env pl p)"
    and "sent (interception_rest env pl p) = sent p"
    and "history_backs (interception_rest env pl p) = history_backs p"
    and "waited (interception_rest env pl p) = waited p + 4000"
proof -
  have "\<forall>k. 0 \<le> k \<and> k < 20 \<longrightarrow> found_url (env k) = None"
    using assms by simp
  note l = locate_exhausted [OF this, of None p]
  show "\<not> isHandlingExternalPlayer (interception_rest env pl p)"
    and "''external-player-active'' \<notin> bodyClasses (interception_rest env pl p)"
    and "sent (interception_rest env pl p) = sent p"
    and "history_backs (interception_rest env pl p) = history_backs p"
    and "waited (interception_rest env pl p) = waited p + 4000"
    using l retry_pow_fields [of 20 p]
    by (simp_all add: interception_rest_def Let_def)
qed

text \<open>
  C3. Let the flag be clear when the routine is invoked, and let none of the 20 attempts be
  shown a URL. Then the retry loop ends with \<^verbatim>\<open>streamUrl\<close> null, and the routine ends with
  the flag clear, the class \<^verbatim>\<open>external-player-active\<close> off the body, no message sent and no
  call of \<^verbatim>\<open>history.back()\<close>. If the loop ran at all, it waited 20 times 200 ms.
\<close>

theorem locator_exhausted_returns_to_idle:
  assumes "\<not> isHandlingExternalPlayer p" and "\<forall>k<20. shows_no_url (env k)"
  shows "fst (snd (locate env 0 None q)) = None
       \<and> \<not> isHandlingExternalPlayer (handleExternalPlayerInterception BUILTIN env p)
       \<and> ''external-player-active'' \<notin> bodyClasses (handleExternalPlayerInterception BUILTIN env p)
       \<and> sent (handleExternalPlayerInterception BUILTIN env p) = sent p
       \<and> history_backs (handleExternalPlayerInterception BUILTIN env p) = history_backs p
       \<and> waited (handleExternalPlayerInterception BUILTIN env p)
           = waited p + (if snd (interception_start BUILTIN p) = None then 0 else 20 * 200)"
proof -
  have none: "\<forall>k<20. found_url (env k) = None"
    using assms(2) shows_no_url_found by blast
  then have "\<forall>k. 0 \<le> k \<and> k < 20 \<longrightarrow> found_url (env k) = None"
    by simp
  from locate_exhausted [OF this, of None q] have l: "fst (snd (locate env 0 None q)) = None"
    by simp
  note r = interception_rest_exhausted [OF none]
  obtain p1 res where st: "interception_start BUILTIN p = (p1, res)"
    by (cases "interception_start BUILTIN p")
  show ?thesis
  proof (cases res)
    case None
    then show ?thesis
      using st assms(1) l
      by (auto simp: handleExternalPlayerInterception_def interception_start_def Let_def
          split: if_splits)
  next
    case (Some pl)
    have p1: "sent p1 = sent p" "history_backs p1 = history_backs p" "waited p1 = waited p"
      using st Some
      by (auto simp: interception_start_def Let_def stopAllVideos_fields split: if_splits)
    show ?thesis
      using st Some l r [of pl p1] p1
      by (simp add: handleExternalPlayerInterception_def)
  qed
qed

theorem locator_exhausted_returns_to_idle_witness:
  "\<not> isHandlingExternalPlayer (handleExternalPlayerInterception ''builtin'' never_ready vlc_tab)
   \<and> sent (handleExternalPlayerInterception ''builtin'' never_ready vlc_tab) = []
   \<and> waited (handleExternalPlayerInterception ''builtin'' never_ready vlc_tab) = 4000"
proof -
  have h: "\<not> isHandlingExternalPlayer vlc_tab" "\<forall>k<20. shows_no_url (never_ready k)"
    by (simp_all add: vlc_tab_def never_ready_def shows_no_url_def no_state_def is_stream_url_def)
  have s: "snd (interception_start ''builtin'' vlc_tab) = Some ''vlc''"
    by (subst interception_start_player [of _ "''vlc''"]) (simp_all add: vlc_tab_def)
  have v: "sent vlc_tab = []" "waited vlc_tab = 0"
    by (simp_all add: vlc_tab_def)
  show ?thesis
    using locator_exhausted_returns_to_idle [OF h, of _ "''builtin''"] by (simp add: s v)
qed

lemma interception_rest_found:
  assumes "k < 20" and "\<forall>j<k. found_url (env j) = None" and "try_attempt (env k) None = (Some s, Some u)"
  shows "sent (interception_rest env pl p)
         = sent p @ [\<lparr>launch_player = pl, launch_url = u, launch_title = build_title (Some s),
                     launch_customPath = (if truthy (stored_player_path p) then stored_player_path p else None)\<rparr>]"
    and "\<not> isHandlingExternalPlayer (interception_rest env pl p)"
    and "''external-player-active'' \<notin> bodyClasses (interception_rest env pl p)"
    and "history_backs (interception_rest env pl p) = Suc (history_backs p)"
    and "waited (interception_rest env pl p) = waited p + 200 * k + 10000"
proof -
  have f: "found_url (env k) = Some u" and st: "seen_state (env k) = Some s"
    using assms(3) by (simp_all add: found_url_def seen_state_def)
  have "\<forall>j. 0 \<le> j \<and> j < k \<longrightarrow> found_url (env j) = None"
    using assms(2) by simp
  from locate_found [OF _ assms(1) this f, of None p]
  have l: "locate env 0 None p = (Some s, Some u, (retry ^^ k) p)"
    by (simp add: st)
  note fs = retry_pow_fields [of k p] stopAllVideos_fields cooldown_fields
  show "sent (interception_rest env pl p)
         = sent p @ [\<lparr>launch_player = pl, launch_url = u, launch_title = build_title (Some s),
                     launch_customPath = (if truthy (stored_player_path p) then stored_player_path p else None)\<rparr>]"
    and "\<not> isHandlingExternalPlayer (interception_rest env pl p)"
    and "''external-player-active'' \<notin> bodyClasses (interception_rest env pl p)"
    and "history_backs (interception_rest env pl p) = Suc (history_backs p)"
    and "waited (interception_rest env pl p) = waited p + 200 * k + 10000"
    by (simp_all add: interception_rest_def l Let_def fs)
qed

lemma build_title_cases:
  "meta_name s = Some n \<and> n \<noteq> [] \<and> series_season s = Some a \<and> a \<noteq> 0
     \<and> series_episode s = Some b \<and> b \<noteq> 0
   \<longrightarrow> build_title (Some s) = n @ '' S'' @ string_of_number a @ ''E'' @ string_of_number b"
  "meta_name s = Some n \<and> n \<noteq> [] \<and> (series_season s = None \<or> series_episode s = None)
   \<longrightarrow> build_title (Some s) = n"
  "\<not> truthy (meta_name s) \<and> truthy (title s) \<longrightarrow> build_title (Some s) = chars (title s)"
  "\<not> truthy (meta_name s) \<and> \<not> truthy (title s) \<longrightarrow> build_title (Some s) = ''Stremio Stream''"
  by (auto simp: build_title_def truthy_def nonzero_def number_text_def chars_def
      split: option.splits)

text \<open>
  C1, amended. Let the flag be clear, let the setting be \<^verbatim>\<open>vlc\<close> or \<^verbatim>\<open>mpchc\<close>, and let
  attempt \<open>k\<close> of the 20 be the first one to find a URL \<open>u\<close>, in the player state \<open>s\<close>.
  Then the routine sends one message, with the setting as player, \<open>u\<close> as URL, the custom
  path if one is stored and not empty, and the title built from \<open>s\<close>: the name followed by
  \<^verbatim>\<open> S<season>E<episode>\<close> when there is a name and season and episode are both known and not
  zero; the name alone when there is a name and the season or the episode is not known; the
  field \<^verbatim>\<open>title\<close> of the player state when there is no name but that field; and
  \<^verbatim>\<open>Stremio Stream\<close> when there is neither.
\<close>

theorem launch_request_sent_once:
  assumes "\<not> isHandlingExternalPlayer p" and "stored_player p = Some pl"
    and "pl = ''vlc'' \<or> pl = ''mpchc''" and "pl \<noteq> BUILTIN"
    and "k < 20" and "\<forall>j<k. found_url (env j) = None"
    and "try_attempt (env k) None = (Some s, Some u)"
  shows "sent (handleExternalPlayerInterception BUILTIN env p)
           = sent p @ [\<lparr>launch_player = pl, launch_url = u, launch_title = build_title (Some s),
                       launch_customPath =
                         (if truthy (stored_player_path p) then stored_player_path p else None)\<rparr>]
       \<and> (\<forall>n a b. meta_name s = Some n \<and> n \<noteq> [] \<and> series_season s = Some a \<and> a \<noteq> 0
              \<and> series_episode s = Some b \<and> b \<noteq> 0
            \<longrightarrow> build_title (Some s) = n @ '' S'' @ string_of_number a @ ''E'' @ string_of_number b)
       \<and> (\<forall>n. meta_name s = Some n \<and> n \<noteq> [] \<and> (series_season s = None \<or> series_episode s = None)
            \<longrightarrow> build_title (Some s) = n)
       \<and> (\<not> truthy (meta_name s) \<and> truthy (title s) \<longrightarrow> build_title (Some s) = chars (title s))
       \<and> (\<not> truthy (meta_name s) \<and> \<not> truthy (title s) \<longrightarrow> build_title (Some s) = ''Stremio Stream'')"
proof -
  let ?p1 = "stopAllVideos (p\<lparr>isHandlingExternalPlayer := True,
                              bodyClasses := insert ''external-player-active'' (bodyClasses p)\<rparr>)"
  have "handleExternalPlayerInterception BUILTIN env p = interception_rest env pl ?p1"
    by (simp add: handleExternalPlayerInterception_def interception_start_player [OF assms(1-4)])
  moreover have "sent ?p1 = sent p" "stored_player_path ?p1 = stored_player_path p"
    by (simp_all add: stopAllVideos_fields)
  ultimately have "sent (handleExternalPlayerInterception BUILTIN env p)
           = sent p @ [\<lparr>launch_player = pl, launch_url = u, launch_title = build_title (Some s),
                       launch_customPath =
                         (if truthy (stored_player_path p) then stored_player_path p else None)\<rparr>]"
    using interception_rest_found(1) [OF assms(5-7), of pl ?p1] by simp
  then show ?thesis
    using build_title_cases [of s] by blast
qed

theorem launch_request_sent_once_witness:
  "sent (handleExternalPlayerInterception ''builtin'' (third_attempt episode_state) vlc_tab)
   = [\<lparr>launch_player = ''vlc'', launch_url = ''https://x/stream.m3u8'', launch_title = ''Show S1E2'',
       launch_customPath = None\<rparr>]"
proof -
  have t: "try_attempt (third_attempt episode_state 2) None
           = (Some episode_state, Some ''https://x/stream.m3u8'')"
    by (simp add: third_attempt_def try_attempt_def find_stream_url_def possibleUrls_def
        is_stream_url_def startsWith_def episode_state_def ready_state_def empty_state_def)
  have n: "\<forall>j<2. found_url (third_attempt episode_state j) = None"
    by (simp add: third_attempt_def found_url_def try_attempt_def no_state_def)
  have h: "\<not> isHandlingExternalPlayer vlc_tab" "stored_player vlc_tab = Some ''vlc''"
    "''vlc'' = ''vlc'' \<or> ''vlc'' = ''mpchc''" "''vlc'' \<noteq> ''builtin''" "(2::nat) < 20"
    by (simp_all add: vlc_tab_def)
  have e: "meta_name episode_state = Some ''Show''" "series_season episode_state = Some 1"
    "series_episode episode_state = Some 2" "string_of_number 1 = ''1''" "string_of_number 2 = ''2''"
    by (simp_all add: episode_state_def ready_state_def empty_state_def series_season_def
        series_episode_def string_of_number_def decimal.simps digit_char_def)
  have v: "sent vlc_tab = []" "stored_player_path vlc_tab = None"
    by (simp_all add: vlc_tab_def)
  from launch_request_sent_once [OF h n t] show ?thesis
    by (simp add: e v truthy_def)
qed

text \<open>
  C1 as stated fails: with no name in the player state the title sent is
  \<^verbatim>\<open>Stremio Stream\<close>, not \<^verbatim>\<open>Stream\<close>.
\<close>

theorem fallback_title_counterexample:
  "meta_name ready_state = None
   \<and> map launch_title (sent (handleExternalPlayerInterception ''builtin'' (third_attempt ready_state) vlc_tab))
       = [''Stremio Stream'']
   \<and> map launch_title (sent (handleExternalPlayerInterception ''builtin'' (third_attempt ready_state) vlc_tab))
       \<noteq> [''Stream'']"
proof -
  have t: "try_attempt (third_attempt ready_state 2) None
           = (Some ready_state, Some ''https://x/stream.m3u8'')"
    by (simp add: third_attempt_def try_attempt_def find_stream_url_def possibleUrls_def
        is_stream_url_def startsWith_def ready_state_def empty_state_def)
  have n: "\<forall>j<2. found_url (third_attempt ready_state j) = None"
    by (simp add: third_attempt_def found_url_def try_attempt_def no_state_def)
  have s: "interception_start ''builtin'' vlc_tab
      = (stopAllVideos (vlc_tab\<lparr>isHandlingExternalPlayer := True,
                                bodyClasses := insert ''external-player-active'' (bodyClasses vlc_tab)\<rparr>),
         Some ''vlc'')"
    by (rule interception_start_player) (simp_all add: vlc_tab_def)
  have b: "build_title (Some ready_state) = ''Stremio Stream''" "meta_name ready_state = None"
    by (simp_all add: build_title_def truthy_def ready_state_def empty_state_def)
  let ?p1 = "stopAllVideos (vlc_tab\<lparr>isHandlingExternalPlayer := True,
                                bodyClasses := insert ''external-player-active'' (bodyClasses vlc_tab)\<rparr>)"
  have r: "handleExternalPlayerInterception ''builtin'' (third_attempt ready_state) vlc_tab
           = interception_rest (third_attempt ready_state) ''vlc'' ?p1"
    by (simp add: handleExternalPlayerInterception_def s)
  have e: "sent ?p1 = []"
    by (simp add: stopAllVideos_fields vlc_tab_def)
  have "(2::nat) < 20" by simp
  from interception_rest_found(1) [OF this n t, of "''vlc''" ?p1] show ?thesis
    unfolding r by (simp add: e b)
qed

lemma startsWith_iff: "startsWith s p \<longleftrightarrow> (\<exists>post. s = p @ post)"
proof
  assume "startsWith s p"
  then have "s = p @ drop (length p) s"
    by (metis append_take_drop_id startsWith_def)
  then show "\<exists>post. s = p @ post" ..
next
  assume "\<exists>post. s = p @ post"
  then show "startsWith s p"
    by (auto simp: startsWith_def)
qed

lemma includes_str_iff: "includes_str s p \<longleftrightarrow> (\<exists>pre post. s = pre @ p @ post)"
proof (induction s)
  case Nil
  then show ?case by auto
next
  case (Cons c cs)
  show ?case
  proof
    assume "includes_str (c # cs) p"
    then consider "startsWith (c # cs) p" | "includes_str cs p"
      by auto
    then show "\<exists>pre post. c # cs = pre @ p @ post"
    proof cases
      case 1
      then obtain post where "c # cs = [] @ p @ post"
        by (auto simp: startsWith_iff)
      then show ?thesis by blast
    next
      case 2
      then obtain pre post where "cs = pre @ p @ post"
        using Cons.IH by blast
      then have "c # cs = (c # pre) @ p @ post"
        by simp
      then show ?thesis by blast
    qed
  next
    assume "\<exists>pre post. c # cs = pre @ p @ post"
    then obtain pre post where e: "c # cs = pre @ p @ post"
      by blast
    show "includes_str (c # cs) p"
    proof (cases pre)
      case Nil
      then have "startsWith (c # cs) p"
        using e by (auto simp: startsWith_iff)
      then show ?thesis by simp
    next
      case (Cons d pre')
      then have "cs = pre' @ p @ post"
        using e by simp
      then have "includes_str cs p"
        using Cons.IH by blast
      then show ?thesis by simp
    qed
  qed
qed

text \<open>
  C10. Let the setting be a string other than the empty one, the built-in value,
  \<^verbatim>\<open>disabled\<close> and \<^verbatim>\<open>m3u\<close>, and let the address contain \<^verbatim>\<open>#/player\<close>. Then \<^verbatim>\<open>play\<close> leaves
  the video paused and muted and returns a fulfilled promise, whatever the method of the
  browser would have done. Under any other setting, and on any address that does not contain
  \<^verbatim>\<open>#/player\<close>, it is the method of the browser that runs, and its result is returned.
\<close>

theorem play_blocked_or_original:
  "(pl \<noteq> [] \<and> pl \<noteq> BUILTIN \<and> pl \<noteq> ''disabled'' \<and> pl \<noteq> ''m3u''
      \<longrightarrow> video_play BUILTIN originalVideoPlay (Some pl) (pre @ ''#/player'' @ post) v
            = (v\<lparr>paused := True, muted := True\<rparr>, Fulfilled ()))
   \<and> (builtin_or_m3u BUILTIN setting \<or> \<not> (\<exists>pre post. href = pre @ ''#/player'' @ post)
      \<longrightarrow> video_play BUILTIN originalVideoPlay setting href v = originalVideoPlay v)"
proof -
  have "includes_str (pre @ ''#/player'' @ post) ''#/player''"
    unfolding includes_str_iff by blast
  then have blocked: "pl \<noteq> [] \<and> pl \<noteq> BUILTIN \<and> pl \<noteq> ''disabled'' \<and> pl \<noteq> ''m3u''
      \<longrightarrow> video_play BUILTIN originalVideoPlay (Some pl) (pre @ ''#/player'' @ post) v
            = (v\<lparr>paused := True, muted := True\<rparr>, Fulfilled ())"
    by (simp add: video_play_def truthy_def)
  have "builtin_or_m3u BUILTIN setting \<or> \<not> (\<exists>pre post. href = pre @ ''#/player'' @ post)
      \<longrightarrow> video_play BUILTIN originalVideoPlay setting href v = originalVideoPlay v"
    unfolding includes_str_iff [symmetric]
    by (auto simp: video_play_def builtin_or_m3u_def)
  with blocked show ?thesis
    by blast
qed

theorem play_blocked_or_original_witness:
  "video_play ''builtin'' rejecting_play (Some ''vlc'') ''#/player/vid1/hashA'' playing_video
     = (\<lparr>paused = True, muted = True\<rparr>, Fulfilled ())
   \<and> video_play ''builtin'' rejecting_play (Some ''m3u'') ''#/player/vid1/hashA'' playing_video
     = (playing_video, Rejected)"
proof -
  have a: "''vlc'' \<noteq> [] \<and> ''vlc'' \<noteq> ''builtin'' \<and> ''vlc'' \<noteq> ''disabled'' \<and> ''vlc'' \<noteq> ''m3u''"
    by simp
  have b: "builtin_or_m3u ''builtin'' (Some ''m3u'')"
    by (simp add: builtin_or_m3u_def)
  have "video_play ''builtin'' rejecting_play (Some ''vlc'') ([] @ ''#/player'' @ ''/vid1/hashA'') playing_video
     = (playing_video\<lparr>paused := True, muted := True\<rparr>, Fulfilled ())"
    using play_blocked_or_original [of "''vlc''" "''builtin''" rejecting_play "[]" "''/vid1/hashA''"
        playing_video] a by blast
  moreover have "video_play ''builtin'' rejecting_play (Some ''m3u'') ''#/player/vid1/hashA'' playing_video
     = rejecting_play playing_video"
    using play_blocked_or_original [of _ "''builtin''" rejecting_play _ _ playing_video "Some ''m3u''"
        "''#/player/vid1/hashA''"] b by blast
  ultimately show ?thesis
    by (simp add: playing_video_def rejecting_play_def)
qed

subsection \<open>Properties of quick resume\<close>

lemma update_absent: "k \<notin> fst ` set m \<Longrightarrow> AList.update k v m = m @ [(k, v)]"
  by (induction m) auto

lemma fold_update_distinct:
  "distinct (map fst (acc @ es)) \<Longrightarrow> fold (\<lambda>e m. AList.update (fst e) (snd e) m) es acc = acc @ es"
proof (induction es arbitrary: acc)
  case Nil
  then show ?case by simp
next
  case (Cons e es)
  have "fst e \<notin> fst ` set acc"
    using Cons.prems by auto
  then have "AList.update (fst e) (snd e) acc = acc @ [e]"
    by (simp add: update_absent)
  moreover have "distinct (map fst ((acc @ [e]) @ es))"
    using Cons.prems by simp
  ultimately show ?case
    using Cons.IH [of "acc @ [e]"] by simp
qed

lemma Object_fromEntries_distinct: "distinct (map fst es) \<Longrightarrow> Object_fromEntries es = es"
  using fold_update_distinct [of "[]" es] by (simp add: Object_fromEntries_def)

lemma newest_first_props:
  "set (newest_first es) = set es"
  "length (newest_first es) = length es"
  "sorted_wrt (\<lambda>a b. timestamp (snd b) \<le> timestamp (snd a)) (newest_first es)"
  using sorted_sort_key [of "\<lambda>e. - timestamp (snd e)" es]
  by (simp_all add: newest_first_def sorted_map)

lemma newest_first_distinct: "distinct (map fst es) \<Longrightarrow> distinct (map fst (newest_first es))"
  by (simp add: distinct_map newest_first_def)

lemma later_sorted_takeWhile:
  "sorted_wrt (\<lambda>a b. timestamp (snd b) \<le> timestamp (snd a)) es
   \<Longrightarrow> later t es = takeWhile (\<lambda>e. t < timestamp (snd e)) es"
proof (induction es)
  case Nil
  then show ?case by (simp add: later_def)
next
  case (Cons e es)
  show ?case
  proof (cases "t < timestamp (snd e)")
    case True
    then show ?thesis
      using Cons by (simp add: later_def)
  next
    case False
    then have "\<forall>x \<in> set es. \<not> t < timestamp (snd x)"
      using Cons.prems by auto
    then have "filter (\<lambda>e. t < timestamp (snd e)) es = []"
      by (simp add: filter_empty_conv)
    with False show ?thesis
      by (simp add: later_def)
  qed
qed

lemma takeWhile_take_commute: "takeWhile P (take n xs) = take n (takeWhile P xs)"
proof (induction xs arbitrary: n)
  case Nil
  then show ?case by simp
next
  case (Cons x xs)
  then show ?case by (cases n) simp_all
qed

lemma later_take_sorted:
  assumes "sorted_wrt (\<lambda>a b. timestamp (snd b) \<le> timestamp (snd a)) es"
  shows "later t (take n es) = take n (later t es)"
proof -
  have s: "sorted_wrt (\<lambda>a b. timestamp (snd b) \<le> timestamp (snd a)) (take n es)"
    using assms by (metis append_take_drop_id sorted_wrt_append)
  show ?thesis
    unfolding later_sorted_takeWhile [OF assms] later_sorted_takeWhile [OF s]
    by (simp add: takeWhile_take_commute)
qed

lemma trim_entries_props:
  assumes "distinct (map fst es)"
  shows "length (trim_entries es) = min 100 (length es)"
    and "set (trim_entries es) \<subseteq> set es"
    and "distinct (map fst (trim_entries es))"
    and "\<forall>x \<in> set es - set (trim_entries es). \<forall>y \<in> set (trim_entries es).
           timestamp (snd x) \<le> timestamp (snd y)"
    and "length (later t (trim_entries es)) = min 100 (length (later t es))"
    and "length (later t es) \<le> 100 \<Longrightarrow> set (later t (trim_entries es)) = set (later t es)"
proof -
  let ?s = "newest_first es"
  note p = newest_first_props [of es]
  have d: "distinct (map fst (take 100 ?s))"
    using newest_first_distinct [OF assms] by (simp add: take_map [symmetric])
  have t: "trim_entries es = (if length es > 100 then take 100 ?s else es)"
    by (simp add: trim_entries_def Object_fromEntries_distinct [OF d])
  show "length (trim_entries es) = min 100 (length es)"
    by (simp add: t p)
  show "set (trim_entries es) \<subseteq> set es"
    using set_take_subset [of 100 ?s] by (simp add: t p)
  show "distinct (map fst (trim_entries es))"
    using d assms by (simp add: t)
  show "\<forall>x \<in> set es - set (trim_entries es). \<forall>y \<in> set (trim_entries es).
           timestamp (snd x) \<le> timestamp (snd y)"
  proof (cases "length es > 100")
    case False
    then show ?thesis by (simp add: t)
  next
    case True
    have "sorted_wrt (\<lambda>a b. timestamp (snd b) \<le> timestamp (snd a)) (take 100 ?s @ drop 100 ?s)"
      using p(3) by simp
    then have o: "\<forall>y \<in> set (take 100 ?s). \<forall>x \<in> set (drop 100 ?s). timestamp (snd x) \<le> timestamp (snd y)"
      unfolding sorted_wrt_append by blast
    have "set es = set (take 100 ?s) \<union> set (drop 100 ?s)"
      using p(1) by (metis append_take_drop_id set_append)
    then show ?thesis
      using o True by (auto simp: t)
  qed
  have perm_len: "length (later t ?s) = length (later t es)"
    by (simp add: later_def newest_first_def flip: length_filter_conv_card)
       (metis (no_types) filter_sort length_sort)
  have perm_set: "set (later t ?s) = set (later t es)"
    by (simp add: later_def p)
  show "length (later t (trim_entries es)) = min 100 (length (later t es))"
  proof (cases "length es > 100")
    case False
    have "length (later t es) \<le> length es"
      by (simp add: later_def)
    with False show ?thesis by (simp add: t)
  next
    case True
    then show ?thesis
      by (simp add: t later_take_sorted [OF p(3)] perm_len)
  qed
  show "set (later t (trim_entries es)) = set (later t es)" if "length (later t es) \<le> 100"
  proof (cases "length es > 100")
    case False
    then show ?thesis by (simp add: t)
  next
    case True
    then show ?thesis
      using that by (simp add: t later_take_sorted [OF p(3)] perm_len [symmetric] perm_set)
  qed
qed

lemma map_of_distinct_iff: "distinct (map fst m) \<Longrightarrow> (k, v) \<in> set m \<longleftrightarrow> map_of m k = Some v"
  by (metis map_of_SomeD map_of_is_SomeI)

lemma later_keys_iff:
  "distinct (map fst m) \<Longrightarrow> k \<in> later_keys t m \<longleftrightarrow> (\<exists>v. map_of m k = Some v \<and> t < timestamp v)"
  by (force simp: later_keys_def later_def map_of_distinct_iff [symmetric])

lemma later_keys_card:
  assumes "distinct (map fst m)"
  shows "card (later_keys t m) = length (later t m)"
proof -
  have "distinct (map fst (later t m))"
    using assms by (simp add: later_def distinct_map_filter)
  then have "card (set (map fst (later t m))) = length (map fst (later t m))"
    by (rule distinct_card)
  then show ?thesis
    by (simp add: later_keys_def)
qed

lemma write_entries_distinct: "distinct (map fst m) \<Longrightarrow> distinct (map fst (write_entries k info m))"
  by (simp add: write_entries_def Let_def distinct_update)

lemma write_entries_map_of:
  "map_of (write_entries k info m)
   = (if type info = ''series'' then (map_of m)(k \<mapsto> info, contentId info \<mapsto> info)
      else (map_of m)(k \<mapsto> info))"
  by (simp add: write_entries_def Let_def update_conv')







lemma length_update_le: "length (AList.update k v m) \<le> Suc (length m)"
  by (induction m) auto

lemma save_effective:
  assumes "JSON_parse stored = Some m" and "build_stream_info playerState hash now = Some w"
  shows "saveCurrentStreamInfo (Fulfilled playerState) hash now stored = Some (Streams (store_entry w m))"
  using assms by (cases w) (simp add: saveCurrentStreamInfo_def store_entry_def)


lemma written_entries_kept:
  assumes "distinct (map fst m)" and "length m < 99 \<or> (\<forall>x \<in> set m. timestamp (snd x) < timestamp info)"
  shows "map_of (trim_entries (write_entries k info m)) k = Some info"
    and "type info = ''series''
         \<Longrightarrow> map_of (trim_entries (write_entries k info m)) (contentId info) = Some info"
proof -
  let ?M = "write_entries k info m"
  let ?t = "timestamp info - 1"
  have dM: "distinct (map fst ?M)"
    using assms(1) by (rule write_entries_distinct)
  note tp = trim_entries_props [OF dM]
  have keep: "set (later ?t ?M) \<subseteq> set (trim_entries ?M)"
  proof (cases "length m < 99")
    case True
    have "length ?M \<le> Suc (Suc (length m))"
      using length_update_le [of k info m]
        length_update_le [of "contentId info" info "AList.update k info m"]
      by (simp add: write_entries_def Let_def)
    then have "trim_entries ?M = ?M"
      using True by (simp add: trim_entries_def)
    then show ?thesis
      by (simp add: later_def)
  next
    case False
    then have old: "\<forall>x \<in> set m. timestamp (snd x) < timestamp info"
      using assms(2) by blast
    have "later_keys ?t ?M \<subseteq> {k, contentId info}"
    proof
      fix x assume "x \<in> later_keys ?t ?M"
      then obtain v where v: "map_of ?M x = Some v" "?t < timestamp v"
        using later_keys_iff [OF dM] by blast
      show "x \<in> {k, contentId info}"
      proof (rule ccontr)
        assume "x \<notin> {k, contentId info}"
        then have ne: "x \<noteq> k" "x \<noteq> contentId info"
          by simp_all
        have "map_of ?M x = map_of m x"
          using ne by (simp add: write_entries_map_of)
        then have "map_of m x = Some v"
          using v(1) by simp
        then have "(x, v) \<in> set m"
          by (rule map_of_SomeD)
        then have "timestamp (snd (x, v)) < timestamp info"
          using old by blast
        with v(2) show False
          by simp
      qed
    qed
    then have "card (later_keys ?t ?M) \<le> card {k, contentId info}"
      by (intro card_mono) simp_all
    also have "\<dots> \<le> 2"
      by (simp add: card_insert_if)
    finally have "length (later ?t ?M) \<le> 100"
      by (simp add: later_keys_card [OF dM])
    from tp(6) [OF this] have "set (later ?t ?M) = set (later ?t (trim_entries ?M))"
      by simp
    also have "\<dots> \<subseteq> set (trim_entries ?M)"
      by (simp add: later_def)
    finally show ?thesis .
  qed
  have in_later: "(x, info) \<in> set (later ?t ?M)" if "map_of ?M x = Some info" for x
    using map_of_SomeD [OF that] by (simp add: later_def)
  have "map_of ?M k = Some info"
    by (simp add: write_entries_map_of)
  then have "(k, info) \<in> set (trim_entries ?M)"
    using in_later keep by blast
  then show "map_of (trim_entries ?M) k = Some info"
    by (rule map_of_is_SomeI [OF tp(3)])
  assume "type info = ''series''"
  then have "map_of ?M (contentId info) = Some info"
    by (simp add: write_entries_map_of)
  then have "(contentId info, info) \<in> set (trim_entries ?M)"
    using in_later keep by blast
  then show "map_of (trim_entries ?M) (contentId info) = Some info"
    by (rule map_of_is_SomeI [OF tp(3)])
qed


lemma get_property_own: "map_of obj key = Some info \<Longrightarrow> get_property obj key = Some (Own info)"
  by (simp add: get_property_def)


lemma build_tt1: "build_stream_info (Some series_tt1) tt1_hash 1000 = Some (''tt1:ep2'', tt1_info)"
  by (simp add: build_stream_info_def series_tt1_def empty_state_def tt1_hash_def tt1_info_def
      truthy_def chars_def parse_player_route_def match_player_def segment_def after_segment_def
      line_def startsWith_def series_season_def series_episode_def)



lemma quick_resume_route:
  assumes "in_meta_item e"
    and "includes_str (rowTitle e) ''continue'' \<or> includes_str (rowTitle e) ''watching''"
    and "anchor_href e = Some href" and "parse_detail_route href = Some c"
    and "getSavedStreamInfo stored c = Some (Own info)"
  shows "(now - timestamp info > 30 * day
            \<longrightarrow> handleContinueWatchingClick (Some e) now stored = None)
       \<and> (now - timestamp info \<le> 30 * day
            \<longrightarrow> handleContinueWatchingClick (Some e) now stored
                  = Some (''#/player/'' @ videoId info @ ''/'' @ streamHash info
                          @ (if type info = ''series'' \<and> nonzero (saved_season info)
                                \<and> nonzero (saved_episode info)
                             then ''/'' @ number_text (saved_season info) @ '':''
                                  @ number_text (saved_episode info)
                             else [])))"
  using assms
  by (auto simp: handleContinueWatchingClick_def thirtyDaysMs_def day_def playerUrl_def)

lemma tt1_card_reads:
  "in_meta_item tt1_card"
  "includes_str (rowTitle tt1_card) ''continue'' \<or> includes_str (rowTitle tt1_card) ''watching''"
  "anchor_href tt1_card = Some ''https://app/#/detail/series/tt1''"
  "parse_detail_route ''https://app/#/detail/series/tt1'' = Some ''tt1''"
  by (simp_all add: tt1_card_def startsWith_def parse_detail_route_def match_detail_def
      segment_def after_segment_def)

text \<open>
  The entry of episode 2 of season 1, saved at time 1000: a click 31 days later is left to
  the host, a click 29 days later goes to the route of the entry, season and episode
  included.
\<close>

lemma quick_resume_tt1:
  "handleContinueWatchingClick (Some tt1_card) (1000 + 31 * day) tt1_saved = None
   \<and> handleContinueWatchingClick (Some tt1_card) (1000 + 29 * day) tt1_saved
     = Some ''#/player/vid1/hashA/1:2''"
proof -
  have g: "getSavedStreamInfo tt1_saved ''tt1'' = Some (Own tt1_info)"
    by (simp add: getSavedStreamInfo_def JSON_parse_def get_property_def tt1_saved_def)
  have v: "timestamp tt1_info = 1000" "videoId tt1_info = ''vid1''" "streamHash tt1_info = ''hashA''"
    "type tt1_info = ''series''" "nonzero (saved_season tt1_info)" "nonzero (saved_episode tt1_info)"
    "number_text (saved_season tt1_info) = ''1''" "number_text (saved_episode tt1_info) = ''2''"
    by (simp_all add: tt1_info_def nonzero_def number_text_def string_of_number_def
        decimal.simps digit_char_def)
  from quick_resume_route [OF tt1_card_reads g, of "1000 + 31 * day"]
    quick_resume_route [OF tt1_card_reads g, of "1000 + 29 * day"]
  show ?thesis
    by (simp add: v day_def)
qed

lemma build_special:
  "build_stream_info (Some special_tt1) special_hash 1000 = Some (''tt1:sp1'', special_info)"
  by (simp add: build_stream_info_def special_tt1_def empty_state_def special_hash_def
      special_info_def truthy_def chars_def parse_player_route_def match_player_def segment_def
      after_segment_def line_def startsWith_def series_season_def series_episode_def)

text \<open>
  C7 does not hold of the code. The limit of 30 days is as the claim has it: an entry more
  than 30 days old is left to the host, any other is resumed (\<open>quick_resume_route\<close>). But the
  route of a series carries season and episode only when
  \<^verbatim>\<open>savedStream.season && savedStream.episode\<close> is truthy, under the comment
  \<^verbatim>\<open>Add episode ID if it's a series\<close>, and 0 is not truthy. For a special, episode 1 of
  season 0 of the series \<^verbatim>\<open>tt1\<close>, the save writes a record with season 0 and episode 1, and a
  click on the card of \<^verbatim>\<open>tt1\<close> 29 days later goes to \<^verbatim>\<open>#/player/vid1/hashA\<close>, a route without
  season and episode, where the claim has \<^verbatim>\<open>#/player/vid1/hashA/0:1\<close>.
\<close>

theorem special_resumed_without_episode:
  "saveCurrentStreamInfo (Fulfilled (Some special_tt1)) special_hash 1000 None = special_saved
   \<and> getSavedStreamInfo special_saved ''tt1'' = Some (Own special_info)
   \<and> type special_info = ''series''
   \<and> saved_season special_info = Some 0
   \<and> saved_episode special_info = Some 1
   \<and> handleContinueWatchingClick (Some tt1_card) (1000 + 29 * day) special_saved
     = Some ''#/player/vid1/hashA''"
proof -
  have s: "saveCurrentStreamInfo (Fulfilled (Some special_tt1)) special_hash 1000 None = special_saved"
    by (simp add: saveCurrentStreamInfo_def JSON_parse_def build_special write_entries_def
        trim_entries_def special_info_def special_saved_def)
  have g: "getSavedStreamInfo special_saved ''tt1'' = Some (Own special_info)"
    by (simp add: getSavedStreamInfo_def JSON_parse_def get_property_def special_saved_def)
  have v: "timestamp special_info = 1000" "videoId special_info = ''vid1''"
    "streamHash special_info = ''hashA''" "type special_info = ''series''"
    "saved_season special_info = Some 0" "saved_episode special_info = Some 1"
    by (simp_all add: special_info_def)
  have "handleContinueWatchingClick (Some tt1_card) (1000 + 29 * day) special_saved
     = Some ''#/player/vid1/hashA''"
    using quick_resume_route [OF tt1_card_reads g, of "1000 + 29 * day"]
    by (simp add: v day_def nonzero_def)
  with s g v(4,5,6) show ?thesis
    by simp
qed

text \<open>
  What holds of C8. A lookup over a malformed value gives null, and so does a lookup over a
  missing value unless the content id names a member of \<^verbatim>\<open>Object.prototype\<close>. A save over a
  missing value is a save over the empty map, and stores the entry.
\<close>

lemma lookup_over_corrupt_or_missing:
  "getSavedStreamInfo (Some Malformed) c = None"
  "getSavedStreamInfo None c
   = (if c \<in> set Object_prototype_members then Some (Inherited c) else None)"
  by (simp_all add: getSavedStreamInfo_def JSON_parse_def get_property_def)

lemma save_over_missing_map:
  "stored_entries (saveCurrentStreamInfo r h t None)
   = stored_entries (saveCurrentStreamInfo r h t (Some (Streams [])))"
  "build_stream_info playerState h t = Some (k, info)
   \<Longrightarrow> getSavedStreamInfo (saveCurrentStreamInfo (Fulfilled playerState) h t None) k = Some (Own info)"
proof -
  show "stored_entries (saveCurrentStreamInfo r h t None)
       = stored_entries (saveCurrentStreamInfo r h t (Some (Streams [])))"
    by (simp add: saveCurrentStreamInfo_def stored_entries_def JSON_parse_def
        split: outcome.splits option.splits)
next
  assume s: "build_stream_info playerState h t = Some (k, info)"
  have p: "JSON_parse None = Some []" "distinct (map fst ([] :: saved_streams))"
    by (simp_all add: JSON_parse_def)
  have "saveCurrentStreamInfo (Fulfilled playerState) h t None
      = Some (Streams (trim_entries (write_entries k info [])))"
    using save_effective [OF p(1) s] by (simp add: store_entry_def)
  then show "getSavedStreamInfo (saveCurrentStreamInfo (Fulfilled playerState) h t None) k = Some (Own info)"
    using written_entries_kept(1) [OF p(2), of info k]
    by (simp add: getSavedStreamInfo_def JSON_parse_def get_property_own)
qed

text \<open>Once malformed, the stored value stays malformed whatever is saved.\<close>

lemma save_over_corrupt:
  "saveCurrentStreamInfo r h t (Some Malformed) = Some Malformed"
  by (simp add: saveCurrentStreamInfo_def JSON_parse_def split: outcome.splits option.splits)

lemma corrupt_map_stays: "fold save_input ins (Some Malformed) = Some Malformed"
  by (induction ins) (simp_all add: save_input_def save_over_corrupt)

text \<open>
  C8 does not hold of the code. The lookup catches the error of \<^verbatim>\<open>JSON.parse\<close> and gives
  null, and the save reads a missing value as \<^verbatim>\<open>{}\<close>, but the save has no such guard for a
  malformed value: the error ends in the \<^verbatim>\<open>catch\<close> block of the whole function, which logs a
  warning. So the save of episode 2 of season 1 of \<^verbatim>\<open>tt1\<close> over a malformed value stores
  nothing and leaves the value malformed, where the same save over the empty map stores the
  entry. And the lookup of the content id \<^verbatim>\<open>constructor\<close> over a missing value is not null
  but the member of that name of \<^verbatim>\<open>Object.prototype\<close>, so that a click on a card of that
  content goes to \<^verbatim>\<open>#/player/undefined/undefined\<close>.
\<close>

theorem save_over_corrupt_map_dropped:
  "saveCurrentStreamInfo (Fulfilled (Some series_tt1)) tt1_hash 1000 (Some Malformed) = Some Malformed
   \<and> getSavedStreamInfo
       (saveCurrentStreamInfo (Fulfilled (Some series_tt1)) tt1_hash 1000 (Some Malformed)) ''tt1'' = None
   \<and> getSavedStreamInfo
       (saveCurrentStreamInfo (Fulfilled (Some series_tt1)) tt1_hash 1000 (Some (Streams []))) ''tt1''
     = Some (Own tt1_info)
   \<and> getSavedStreamInfo None ''constructor'' = Some (Inherited ''constructor'')
   \<and> handleContinueWatchingClick (Some constructor_card) 1000 None
     = Some ''#/player/undefined/undefined''"
proof -
  have a: "saveCurrentStreamInfo (Fulfilled (Some series_tt1)) tt1_hash 1000 (Some Malformed) = Some Malformed"
    by (simp add: saveCurrentStreamInfo_def JSON_parse_def build_tt1)
  have b: "saveCurrentStreamInfo (Fulfilled (Some series_tt1)) tt1_hash 1000 (Some (Streams []))
    = Some (Streams [(''tt1:ep2'', tt1_info), (''tt1'', tt1_info)])"
    by (simp add: saveCurrentStreamInfo_def JSON_parse_def build_tt1 write_entries_def
        trim_entries_def tt1_info_def)
  have c: "getSavedStreamInfo None ''constructor'' = Some (Inherited ''constructor'')"
    by (simp add: getSavedStreamInfo_def JSON_parse_def get_property_def
        Object_prototype_members_def)
  have r: "in_meta_item constructor_card"
    "includes_str (rowTitle constructor_card) ''continue''"
    "anchor_href constructor_card = Some ''https://app/#/detail/movie/constructor''"
    "parse_detail_route ''https://app/#/detail/movie/constructor'' = Some ''constructor''"
    by (simp_all add: constructor_card_def startsWith_def parse_detail_route_def match_detail_def
        segment_def after_segment_def)
  have d: "handleContinueWatchingClick (Some constructor_card) 1000 None
     = Some ''#/player/undefined/undefined''"
    by (simp add: handleContinueWatchingClick_def r c)
  from a b c d show ?thesis
    by (simp add: getSavedStreamInfo_def JSON_parse_def get_property_def)
qed

end
